theory Spec2Isabelle
  imports Complex_Main "HOL-Library.AList"
begin

section \<open>Exceptions\<close>

text \<open>
  The Python exceptions that the modelled code can raise. \<open>IndexError\<close>, \<open>KeyError\<close>,
  \<open>TypeError\<close> and \<open>ZeroDivisionError\<close> are the built-in exceptions raised by list
  indexing, dictionary lookup, \<open>datetime - int\<close> and division; \<open>Exception\<close> carries the
  message of an explicit \<open>raise Exception(...)\<close>.
\<close>

datatype error = IndexError | KeyError | TypeError | ZeroDivisionError | Exception string

section \<open>The ring buffer (\<open>SignalStore._ringbuf\<close>)\<close>

text \<open>
  The fields \<open>_size\<close>, \<open>_cursor\<close>, \<open>_data\<close> and \<open>_full\<close> of the class. The lock only
  serialises \<open>add\<close> against \<open>get_data_copy\<close> and is not part of the sequential model.
\<close>

record 'a ringbuf =
  rb_size :: int
  rb_cursor :: nat
  rb_data :: "'a list"
  rb_full :: bool

definition ringbuf_init :: "int \<Rightarrow> 'a ringbuf" where
  "ringbuf_init sz = \<lparr>rb_size = sz, rb_cursor = 0, rb_data = [], rb_full = False\<rparr>"

text \<open>
  \<open>add\<close>: when full, overwrite the slot under the cursor (an \<open>IndexError\<close> if the cursor
  is not a valid index) and advance the cursor modulo the length; otherwise append and
  become full once the length reaches \<open>_size\<close>.
\<close>

definition ringbuf_add :: "'a ringbuf \<Rightarrow> 'a \<Rightarrow> error + 'a ringbuf" where
  "ringbuf_add rb val =
     (if rb_full rb then
        (if rb_cursor rb < length (rb_data rb) then
           Inr (rb\<lparr>rb_data := (rb_data rb)[rb_cursor rb := val],
                   rb_cursor := (rb_cursor rb + 1) mod length (rb_data rb)\<rparr>)
         else Inl IndexError)
      else
        (let data' = rb_data rb @ [val] in
         if rb_size rb \<le> int (length data')
         then Inr (rb\<lparr>rb_data := data', rb_full := True\<rparr>)
         else Inr (rb\<lparr>rb_data := data'\<rparr>)))"

text \<open>
  \<open>get_data_copy\<close>: \<open>data[cursor:] + data[:cursor]\<close> when full, a copy of the data
  otherwise.
\<close>

definition get_data_copy :: "'a ringbuf \<Rightarrow> 'a list" where
  "get_data_copy rb =
     (if rb_full rb then drop (rb_cursor rb) (rb_data rb) @ take (rb_cursor rb) (rb_data rb)
      else rb_data rb)"

text \<open>A sequence of \<open>add\<close> calls on one buffer, stopping at the first exception.\<close>

fun ringbuf_add_all :: "'a ringbuf \<Rightarrow> 'a list \<Rightarrow> error + 'a ringbuf" where
  "ringbuf_add_all rb [] = Inr rb"
| "ringbuf_add_all rb (x # xs) =
     (case ringbuf_add rb x of Inl e \<Rightarrow> Inl e | Inr rb' \<Rightarrow> ringbuf_add_all rb' xs)"

section \<open>Measurements and the signal store (\<open>SignalStore\<close>)\<close>

text \<open>
  A \<open>Measurement\<close>: the timestamp has one-second resolution and is modelled as a number
  of seconds; the signal strength \<open>db\<close> is a Python float, modelled as a real number.
\<close>

record measurement =
  datetime :: int
  hz_low :: int
  hz_high :: int
  db :: real

text \<open>
  The fields of \<open>SignalStore\<close>. The dictionary \<open>_ranges\<close> is the list of its entries in
  insertion order (keys distinct); \<open>_bucket_width\<close> is \<open>None\<close> until it is first set;
  \<open>_warmup_first_datetime\<close> starts as the integer \<open>0\<close>, which is not a datetime and is
  modelled as \<open>None\<close>; of the opaque \<open>config\<close> only the truth value of
  \<open>config['skip_analysis']\<close> is read.
\<close>

record signal_store =
  ranges :: "(int \<times> measurement ringbuf) list"
  BUFSIZE :: int
  bucket_width :: "int option"
  config_skip_analysis :: bool
  warmed_up :: bool
  warmup_measurement_count :: int
  warmup_bucket_frequency :: int
  warmup_first_datetime :: "int option"
  warmup_resize_ringbufs :: bool

definition signal_store_init :: "bool \<Rightarrow> signal_store" where
  "signal_store_init skip =
     \<lparr>ranges = [], BUFSIZE = 200, bucket_width = None, config_skip_analysis = skip,
      warmed_up = False, warmup_measurement_count = 0, warmup_bucket_frequency = 0,
      warmup_first_datetime = None, warmup_resize_ringbufs = False\<rparr>"

definition is_warmed_up :: "signal_store \<Rightarrow> bool" where
  "is_warmed_up s = warmed_up s"

text \<open>Python truthiness of \<open>_bucket_width\<close>: \<open>None\<close> and \<open>0\<close> are false.\<close>

definition bucket_width_set :: "signal_store \<Rightarrow> bool" where
  "bucket_width_set s = (case bucket_width s of None \<Rightarrow> False | Some w \<Rightarrow> w \<noteq> 0)"

definition get_bucket_width :: "signal_store \<Rightarrow> error + int" where
  "get_bucket_width s =
     (case bucket_width s of
        None \<Rightarrow> Inl (Exception ''no measurements yet, unknown bucket width!'')
      | Some w \<Rightarrow>
          if w \<noteq> 0 then Inr w
          else Inl (Exception ''no measurements yet, unknown bucket width!''))"

type_synonym snapshot = "(int \<times> measurement list) list"

definition get_measurements_copy :: "signal_store \<Rightarrow> snapshot" where
  "get_measurements_copy s = map (\<lambda>(k, rb). (k, get_data_copy rb)) (ranges s)"

subsection \<open>\<open>add_measurements\<close>\<close>

text \<open>
  An exception leaves the store as it was mutated so far: the result of a call is either
  \<open>Inl (e, s)\<close>, exception \<open>e\<close> raised with the store left in state \<open>s\<close>, or \<open>Inr s\<close>.
\<close>

type_synonym store_result = "error \<times> signal_store + signal_store"

text \<open>Lines 121-123: note the bucket width from \<open>measurements[0]\<close> if none is set.\<close>

definition note_bucket_width :: "signal_store \<Rightarrow> measurement list \<Rightarrow> store_result" where
  "note_bucket_width s measurements =
     (if \<not> bucket_width_set s then
        (case measurements of
           [] \<Rightarrow> Inl (IndexError, s)
         | m # _ \<Rightarrow> Inr (s\<lparr>bucket_width := Some (hz_high m - hz_low m)\<rparr>))
      else Inr s)"

text \<open>
  Lines 127-129: pick the warmup bucket and its first timestamp from \<open>measurements[0]\<close>
  if \<open>_warmup_bucket_frequency\<close> is false, that is, \<open>0\<close>.
\<close>

definition pick_warmup_bucket :: "signal_store \<Rightarrow> measurement list \<Rightarrow> store_result" where
  "pick_warmup_bucket s measurements =
     (if warmup_bucket_frequency s = 0 then
        (case measurements of
           [] \<Rightarrow> Inl (IndexError, s)
         | m # _ \<Rightarrow> Inr (s\<lparr>warmup_bucket_frequency := hz_low m,
                            warmup_first_datetime := Some (datetime m)\<rparr>))
      else Inr s)"

text \<open>
  Lines 132-144: on a pending resize signal while not warmed up, clear the signal, set
  \<open>_BUFSIZE\<close> to the warmup count, delete every ring buffer and become warmed up.
\<close>

definition complete_warmup :: "signal_store \<Rightarrow> signal_store" where
  "complete_warmup s =
     (if \<not> is_warmed_up s \<and> warmup_resize_ringbufs s then
        s\<lparr>warmup_resize_ringbufs := False, BUFSIZE := warmup_measurement_count s,
          ranges := [], warmed_up := True\<rparr>
      else s)"

text \<open>
  Lines 150-158: while not warmed up, a measurement of the warmup bucket is counted, and
  raises the resize signal if it is more than one second after the first timestamp.
\<close>

definition warmup_count :: "signal_store \<Rightarrow> measurement \<Rightarrow> store_result" where
  "warmup_count s m =
     (if \<not> is_warmed_up s \<and> warmup_bucket_frequency s = hz_low m then
        (let s' = s\<lparr>warmup_measurement_count := warmup_measurement_count s + 1\<rparr> in
         case warmup_first_datetime s' of
           None \<Rightarrow> Inl (TypeError, s')
         | Some first_datetime \<Rightarrow>
             if datetime m - first_datetime > 1
             then Inr (s'\<lparr>warmup_resize_ringbufs := True\<rparr>)
             else Inr s')
      else Inr s)"

text \<open>
  Lines 161-166: add the measurement to the ring buffer of its bucket; on \<open>KeyError\<close>
  make a ring buffer of \<open>_BUFSIZE\<close> elements first.
\<close>

definition store_measurement :: "signal_store \<Rightarrow> measurement \<Rightarrow> store_result" where
  "store_measurement s m =
     (case map_of (ranges s) (hz_low m) of
        Some rb \<Rightarrow>
          (case ringbuf_add rb m of
             Inl e \<Rightarrow> Inl (e, s)
           | Inr rb' \<Rightarrow> Inr (s\<lparr>ranges := AList.update (hz_low m) rb' (ranges s)\<rparr>))
      | None \<Rightarrow>
          (let s' = s\<lparr>ranges := AList.update (hz_low m) (ringbuf_init (BUFSIZE s)) (ranges s)\<rparr>
           in case ringbuf_add (ringbuf_init (BUFSIZE s)) m of
                Inl e \<Rightarrow> Inl (e, s')
              | Inr rb' \<Rightarrow> Inr (s'\<lparr>ranges := AList.update (hz_low m) rb' (ranges s')\<rparr>)))"

definition add_measurement :: "signal_store \<Rightarrow> measurement \<Rightarrow> store_result" where
  "add_measurement s m =
     (case warmup_count s m of Inl e \<Rightarrow> Inl e | Inr s' \<Rightarrow> store_measurement s' m)"

text \<open>The loop of line 147.\<close>

fun add_each :: "signal_store \<Rightarrow> measurement list \<Rightarrow> store_result" where
  "add_each s [] = Inr s"
| "add_each s (m # ms) =
     (case add_measurement s m of Inl e \<Rightarrow> Inl e | Inr s' \<Rightarrow> add_each s' ms)"

definition add_measurements :: "signal_store \<Rightarrow> measurement list \<Rightarrow> store_result" where
  "add_measurements s measurements =
     (case note_bucket_width s measurements of
        Inl e \<Rightarrow> Inl e
      | Inr s1 \<Rightarrow>
          (case pick_warmup_bucket s1 measurements of
             Inl e \<Rightarrow> Inl e
           | Inr s2 \<Rightarrow> add_each (complete_warmup s2) measurements))"

text \<open>
  A sequence of \<open>add_measurements\<close> calls, one batch each, as the input loop of
  \<open>handle_input\<close> makes them: an exception ends the sequence.
\<close>

fun add_batches :: "signal_store \<Rightarrow> measurement list list \<Rightarrow> store_result" where
  "add_batches s [] = Inr s"
| "add_batches s (b # bs) =
     (case add_measurements s b of Inl e \<Rightarrow> Inl e | Inr s' \<Rightarrow> add_batches s' bs)"

text \<open>The store a call leaves behind, whether it returned or raised.\<close>

definition store_after :: "store_result \<Rightarrow> signal_store" where
  "store_after r = (case r of Inl (e, s) \<Rightarrow> s | Inr s \<Rightarrow> s)"

text \<open>The store after the first \<open>i\<close> calls of a sequence of calls.\<close>

definition store_at :: "signal_store \<Rightarrow> measurement list list \<Rightarrow> nat \<Rightarrow> signal_store" where
  "store_at s bs i = store_after (add_batches s (take i bs))"

text \<open>A batch whose first measurement has the bucket key \<open>0\<close>.\<close>

definition starts_with_key_zero :: "measurement list \<Rightarrow> bool" where
  "starts_with_key_zero b = (case b of [] \<Rightarrow> False | m # ms \<Rightarrow> hz_low m = 0)"

subsection \<open>The warmup count in the words of the specification\<close>

text \<open>
  Following the specification's words, not the code: the number of measurements of the
  reference bucket \<open>k\<close> in a stream of measurements, counted until, and not after, the
  first of them whose timestamp is more than one second past \<open>t0\<close>.
\<close>

fun counted_until_late :: "int \<Rightarrow> int \<Rightarrow> measurement list \<Rightarrow> nat" where
  "counted_until_late k t0 [] = 0"
| "counted_until_late k t0 (m # ms) =
     (if hz_low m = k
      then (if datetime m - t0 > 1 then 1 else 1 + counted_until_late k t0 ms)
      else counted_until_late k t0 ms)"

text \<open>
  The number of measurements of bucket \<open>k\<close> in a batch that come after its first one
  later than one second past \<open>t0\<close>.
\<close>

fun refs_after_late :: "int \<Rightarrow> int \<Rightarrow> measurement list \<Rightarrow> nat" where
  "refs_after_late k t0 [] = 0"
| "refs_after_late k t0 (m # ms) =
     (if hz_low m = k \<and> datetime m - t0 > 1
      then length (filter (\<lambda>m. hz_low m = k) ms)
      else refs_after_late k t0 ms)"

section \<open>The analysis (\<open>listen.py\<close>)\<close>

definition compute_noise_floor :: "(int \<times> real) list \<Rightarrow> error + real" where
  "compute_noise_floor average_bucket_strengths =
     (let sorted_dbs = sort (map snd average_bucket_strengths);
          quarter_len = length sorted_dbs div 4
      in if quarter_len = 0 then Inl ZeroDivisionError
         else Inr (sum_list (take quarter_len sorted_dbs) / real quarter_len))"

definition SQUELCH :: real where
  "SQUELCH = 3"

definition find_signal_buckets :: "(int \<times> real) list \<Rightarrow> real \<Rightarrow> int list \<times> real list" where
  "find_signal_buckets average_bucket_strengths noise_floor =
     (let signals = filter (\<lambda>(k, strength). strength > noise_floor + SQUELCH)
                      (sort_key fst average_bucket_strengths)
      in (map fst signals, map snd signals))"

text \<open>Line 67: \<open>[bucket_ranges[f] for f in has_signal]\<close>, a \<open>KeyError\<close> on a missing key.\<close>

fun lookup_ranges :: "(int \<times> int \<times> int) list \<Rightarrow> int list \<Rightarrow> error + (int \<times> int) list" where
  "lookup_ranges bucket_ranges [] = Inr []"
| "lookup_ranges bucket_ranges (f # fs) =
     (case map_of bucket_ranges f of
        None \<Rightarrow> Inl KeyError
      | Some r \<Rightarrow>
          (case lookup_ranges bucket_ranges fs of
             Inl e \<Rightarrow> Inl e
           | Inr rs \<Rightarrow> Inr (r # rs)))"

text \<open>
  Lines 80-86, the inner loop: from index \<open>i\<close> and the current region end, the index and
  the region end it stops with.
\<close>

function extend_region :: "(int \<times> int) list \<Rightarrow> nat \<Rightarrow> int \<Rightarrow> error + nat \<times> int" where
  "extend_region signal_ranges i region_end =
     (if Suc i < length signal_ranges then
        (if snd (signal_ranges ! i) = fst (signal_ranges ! Suc i) then
           (if int (length signal_ranges) - 1 \<le> int (Suc i)
            then Inr (Suc i, fst (signal_ranges ! Suc i))
            else extend_region signal_ranges (Suc i) (fst (signal_ranges ! Suc i)))
         else Inr (i, region_end))
      else Inl IndexError)"
  by pat_completeness auto
termination
  by (relation "measure (\<lambda>(signal_ranges, i, region_end). length signal_ranges - i)") auto

declare extend_region.simps [simp del]

lemma extend_region_index:
  "extend_region signal_ranges i region_end = Inr (j, e) \<Longrightarrow> i \<le> j"
proof (induction signal_ranges i region_end rule: extend_region.induct)
  case (1 signal_ranges i region_end)
  from "1.prems" show ?case
    by (subst (asm) extend_region.simps) (auto split: if_splits dest: "1.IH" [rotated -1])
qed

text \<open>Lines 72-94, the outer loop, from index \<open>i\<close> and the regions found so far.\<close>

function collect_regions ::
  "(int \<times> int) list \<Rightarrow> nat \<Rightarrow> (int \<times> int) list \<Rightarrow> error + (int \<times> int) list" where
  "collect_regions signal_ranges i contiguous_regions =
     (if i < length signal_ranges then
        (case extend_region signal_ranges i (snd (signal_ranges ! i)) of
           Inl e \<Rightarrow> Inl e
         | Inr (j, region_end) \<Rightarrow>
             (if int (length signal_ranges) - 1 \<le> int (Suc j)
              then Inr (contiguous_regions @ [(fst (signal_ranges ! i), region_end)])
              else collect_regions signal_ranges (Suc j)
                     (contiguous_regions @ [(fst (signal_ranges ! i), region_end)])))
      else Inl IndexError)"
  by pat_completeness auto
termination
  by (relation "measure (\<lambda>(signal_ranges, i, contiguous_regions). length signal_ranges - i)")
     (auto dest: extend_region_index)

declare collect_regions.simps [simp del]

definition get_contiguous_regions ::
  "int \<Rightarrow> (int \<times> int \<times> int) list \<Rightarrow> int list \<Rightarrow> real list \<Rightarrow> error + (int \<times> int) list" where
  "get_contiguous_regions bw bucket_ranges has_signal signal_strengths =
     (case lookup_ranges bucket_ranges has_signal of
        Inl e \<Rightarrow> Inl e
      | Inr signal_ranges \<Rightarrow>
          if 2 < length signal_ranges then collect_regions signal_ranges 0 [] else Inr [])"

definition BANDWIDTH_THRESHOLD :: int where
  "BANDWIDTH_THRESHOLD = 10000"

definition get_drone_regions :: "(int \<times> int) list \<Rightarrow> (int \<times> int) list" where
  "get_drone_regions contiguous_signal_regions =
     filter (\<lambda>r. snd r - fst r > BANDWIDTH_THRESHOLD) contiguous_signal_regions"

text \<open>
  Lines 133-141 of \<open>analyze\<close>: the average strength of every bucket of the snapshot that
  holds a measurement, by ascending frequency.
\<close>

definition average_strengths :: "snapshot \<Rightarrow> (int \<times> real) list" where
  "average_strengths measurements =
     map (\<lambda>(f, ms). (f, sum_list (map db ms) / real (length ms)))
       (filter (\<lambda>(f, ms). length ms \<noteq> 0) (sort_key fst measurements))"

text \<open>
  What \<open>analyze\<close> has computed when it prints its verdict \<open>drone_detected\<close>.
\<close>

record analysis =
  noise_floor_of :: real
  has_signal_of :: "int list"
  signal_strengths_of :: "real list"
  contiguous_regions_of :: "(int \<times> int) list"
  drone_regions_of :: "(int \<times> int) list"
  drone_detected :: bool

text \<open>
  \<open>analyze\<close> is given the store object. The model returns its outcome together with the
  store as the call leaves it: an exception, \<open>None\<close> when the analysis is skipped, or the
  values computed.
\<close>

definition analyze :: "signal_store \<Rightarrow> (error + analysis option) \<times> signal_store" where
  "analyze s =
     (if config_skip_analysis s then (Inr None, s)
      else
        (let measurements = get_measurements_copy s;
             averages = average_strengths measurements
         in case compute_noise_floor averages of
              Inl e \<Rightarrow> (Inl e, s)
            | Inr noise_floor \<Rightarrow>
                (case find_signal_buckets averages noise_floor of
                   (has_signal, signal_strengths) \<Rightarrow>
                     (case get_bucket_width s of
                        Inl e \<Rightarrow> (Inl e, s)
                      | Inr bw \<Rightarrow>
                          (case get_contiguous_regions bw
                                  (map (\<lambda>(f, a). (f, (f, f + bw))) averages)
                                  has_signal signal_strengths of
                             Inl e \<Rightarrow> (Inl e, s)
                           | Inr regions \<Rightarrow>
                               (Inr (Some \<lparr>noise_floor_of = noise_floor,
                                           has_signal_of = has_signal,
                                           signal_strengths_of = signal_strengths,
                                           contiguous_regions_of = regions,
                                           drone_regions_of = get_drone_regions regions,
                                           drone_detected = (get_drone_regions regions \<noteq> [])\<rparr>),
                                s))))))"

section \<open>Example inputs\<close>

text \<open>The constructor of \<open>Measurement\<close>.\<close>

definition Measurement :: "int \<Rightarrow> int \<Rightarrow> int \<Rightarrow> real \<Rightarrow> measurement" where
  "Measurement t lo hi d = \<lparr>datetime = t, hz_low = lo, hz_high = hi, db = d\<rparr>"

text \<open>A fresh store (analysis not skipped) after one call of \<open>add_measurements\<close>.\<close>

definition store_of_sweep :: "measurement list \<Rightarrow> signal_store" where
  "store_of_sweep measurements =
     store_after (add_measurements (signal_store_init False) measurements)"

text \<open>
  Six 10 MHz buckets from 2420 MHz: the buckets at 2450 MHz and 2460 MHz are 30 dB above
  the others.
\<close>

definition sweep_two_adjacent :: "measurement list" where
  "sweep_two_adjacent =
     [Measurement 0 2420000000 2430000000 (-70), Measurement 0 2430000000 2440000000 (-70),
      Measurement 0 2440000000 2450000000 (-70), Measurement 0 2450000000 2460000000 (-40),
      Measurement 0 2460000000 2470000000 (-40), Measurement 0 2470000000 2480000000 (-70)]"

text \<open>
  Eight 1 MHz buckets from 2400 MHz: the three buckets from 2405 MHz are 30 dB above the
  others.
\<close>

definition sweep_three_narrow :: "measurement list" where
  "sweep_three_narrow =
     [Measurement 0 2400000000 2401000000 (-70), Measurement 0 2401000000 2402000000 (-70),
      Measurement 0 2402000000 2403000000 (-70), Measurement 0 2403000000 2404000000 (-70),
      Measurement 0 2404000000 2405000000 (-70), Measurement 0 2405000000 2406000000 (-40),
      Measurement 0 2406000000 2407000000 (-40), Measurement 0 2407000000 2408000000 (-40)]"

text \<open>Five 10 MHz buckets, the one at 2440 MHz 30 dB above the others.\<close>

definition sweep_lone :: "measurement list" where
  "sweep_lone =
     [Measurement 0 2420000000 2430000000 (-70), Measurement 0 2430000000 2440000000 (-70),
      Measurement 0 2440000000 2450000000 (-40), Measurement 0 2450000000 2460000000 (-70),
      Measurement 0 2460000000 2470000000 (-70)]"

text \<open>Three 10 MHz buckets.\<close>

definition sweep_three_buckets :: "measurement list" where
  "sweep_three_buckets =
     [Measurement 0 2420000000 2430000000 (-70), Measurement 0 2430000000 2440000000 (-65),
      Measurement 0 2440000000 2450000000 (-40)]"

text \<open>
  Four sweeps of two 1 MHz buckets, at seconds 0, 2, 3 and 4: the second sweep raises the
  resize signal, the third call completes the warmup.
\<close>

definition warmup_sweeps :: "measurement list list" where
  "warmup_sweeps =
     [[Measurement 0 2400000000 2401000000 (-70), Measurement 0 2401000000 2402000000 (-70)],
      [Measurement 2 2400000000 2401000000 (-70), Measurement 2 2401000000 2402000000 (-70)],
      [Measurement 3 2400000000 2401000000 (-70), Measurement 3 2401000000 2402000000 (-70)],
      [Measurement 4 2400000000 2401000000 (-70), Measurement 4 2401000000 2402000000 (-70)]]"

text \<open>
  Three sweeps at seconds 0, 1 and 2 that start at 0 Hz, 5 MHz and 10 MHz.
\<close>

definition zero_start_sweeps :: "measurement list list" where
  "zero_start_sweeps =
     [[Measurement 0 0 1000000 (-70), Measurement 0 1000000 2000000 (-70)],
      [Measurement 1 5000000 6000000 (-70), Measurement 1 6000000 7000000 (-70)],
      [Measurement 2 10000000 11000000 (-70), Measurement 2 11000000 12000000 (-70)]]"

text \<open>
  Three batches of the 2400 MHz bucket at seconds 0, 2 and 3, the second holding the
  bucket twice.
\<close>

definition duplicate_key_sweeps :: "measurement list list" where
  "duplicate_key_sweeps =
     [[Measurement 0 2400000000 2401000000 (-70)],
      [Measurement 2 2400000000 2401000000 (-70), Measurement 2 2400000000 2401000000 (-70)],
      [Measurement 3 2400000000 2401000000 (-70)]]"

text \<open>
  Four sweeps of two 1 MHz buckets at seconds 0, 1, 3 and 4: the first starts at 0 Hz,
  the others at 5 MHz.
\<close>

definition zero_then_late_sweeps :: "measurement list list" where
  "zero_then_late_sweeps =
     [[Measurement 0 0 1000000 (-70), Measurement 0 1000000 2000000 (-70)],
      [Measurement 1 5000000 6000000 (-70), Measurement 1 6000000 7000000 (-70)],
      [Measurement 3 5000000 6000000 (-70), Measurement 3 6000000 7000000 (-70)],
      [Measurement 4 5000000 6000000 (-70), Measurement 4 6000000 7000000 (-70)]]"

section \<open>Ring buffer: the snapshot holds the most recent values in order\<close>

lemma ringbuf_add_all_snoc:
  "ringbuf_add_all rb (xs @ [x]) =
     (case ringbuf_add_all rb xs of Inl e \<Rightarrow> Inl e | Inr rb' \<Rightarrow> ringbuf_add rb' x)"
  by (induction xs arbitrary: rb) (auto split: sum.splits)

lemma rotate_overwrite:
  assumes "c < length d"
  shows "drop ((c + 1) mod length d) (d[c := v]) @ take ((c + 1) mod length d) (d[c := v])
         = tl (drop c d @ take c d) @ [v]"
proof (cases "c + 1 < length d")
  case True
  have "drop c d \<noteq> []" using assms by simp
  then have "tl (drop c d @ take c d) = drop (Suc c) d @ take c d"
    by (simp add: drop_Suc tl_drop)
  moreover have "take (Suc c) (d[c := v]) = take c d @ [v]"
    using assms by (simp add: take_Suc_conv_app_nth)
  ultimately show ?thesis using True by simp
next
  case False
  then have c: "Suc c = length d" using assms by simp
  then have "drop c d = [d ! c]"
    by (metis Cons_nth_drop_Suc assms drop_all order_refl)
  moreover have "d[c := v] = take c d @ [v]"
    using c by (metis assms take_Suc_conv_app_nth take_all length_list_update nth_list_update_eq order_refl take_update_cancel)
  ultimately show ?thesis using c by simp
qed

text \<open>
  The state of a buffer of capacity \<open>N \<ge> 1\<close> after the values \<open>xs\<close> have been added:
  below capacity it holds \<open>xs\<close> itself, at or above capacity it is full, holds \<open>N\<close>
  values, and reading from the cursor gives the last \<open>N\<close> values of \<open>xs\<close>.
\<close>

definition ringbuf_holds :: "int \<Rightarrow> 'a list \<Rightarrow> 'a ringbuf \<Rightarrow> bool" where
  "ringbuf_holds N xs rb =
     (rb_size rb = N \<and>
      (if length xs < nat N
       then rb_data rb = xs \<and> \<not> rb_full rb \<and> rb_cursor rb = 0
       else rb_full rb \<and> length (rb_data rb) = nat N \<and> rb_cursor rb < nat N \<and>
            drop (rb_cursor rb) (rb_data rb) @ take (rb_cursor rb) (rb_data rb)
              = drop (length xs - nat N) xs))"

lemma ringbuf_holds_add:
  assumes "1 \<le> N" and "ringbuf_holds N xs rb"
  shows "\<exists>rb'. ringbuf_add rb x = Inr rb' \<and> ringbuf_holds N (xs @ [x]) rb'"
proof (cases "length xs < nat N")
  case True
  with assms show ?thesis
    by (auto simp: ringbuf_holds_def ringbuf_add_def Let_def)
next
  case False
  with assms have h: "rb_size rb = N" "rb_full rb" "length (rb_data rb) = nat N"
    "rb_cursor rb < nat N"
    "drop (rb_cursor rb) (rb_data rb) @ take (rb_cursor rb) (rb_data rb)
       = drop (length xs - nat N) xs"
    by (simp_all add: ringbuf_holds_def)
  have "tl (drop (length xs - nat N) xs) @ [x] = drop (length (xs @ [x]) - nat N) (xs @ [x])"
    using False assms(1) by (simp add: tl_drop Suc_diff_le drop_Suc)
  then show ?thesis
    using h False rotate_overwrite [of "rb_cursor rb" "rb_data rb" x]
    by (simp add: ringbuf_holds_def ringbuf_add_def)
qed

lemma ringbuf_holds_add_all:
  assumes "1 \<le> N"
  shows "\<exists>rb. ringbuf_add_all (ringbuf_init N) xs = Inr rb \<and> ringbuf_holds N xs rb"
proof (induction xs rule: rev_induct)
  case Nil
  show ?case using assms by (simp add: ringbuf_holds_def ringbuf_init_def)
next
  case (snoc x xs)
  then obtain rb where rb: "ringbuf_add_all (ringbuf_init N) xs = Inr rb"
    "ringbuf_holds N xs rb" by blast
  from ringbuf_holds_add [OF assms rb(2), of x] rb(1) show ?case
    by (auto simp: ringbuf_add_all_snoc)
qed

lemma ringbuf_holds_copy:
  "1 \<le> N \<Longrightarrow> ringbuf_holds N xs rb \<Longrightarrow> get_data_copy rb = drop (length xs - nat N) xs"
  by (auto simp: ringbuf_holds_def get_data_copy_def split: if_splits)

text \<open>
  Claim C6. For every capacity \<open>N \<ge> 1\<close> and every sequence \<open>xs\<close> of added values, no
  \<open>add\<close> call raises, and \<open>get_data_copy\<close> returns exactly \<open>min (length xs) N\<close> elements:
  the most recently added ones, oldest first, however often the buffer has wrapped.
\<close>

theorem ringbuf_snapshot_most_recent:
  assumes "1 \<le> N"
  shows "\<exists>rb. ringbuf_add_all (ringbuf_init N) xs = Inr rb \<and>
              get_data_copy rb = drop (length xs - nat N) xs \<and>
              length (get_data_copy rb) = min (length xs) (nat N)"
proof -
  from ringbuf_holds_add_all [OF assms, of xs] obtain rb where
    rb: "ringbuf_add_all (ringbuf_init N) xs = Inr rb" "ringbuf_holds N xs rb" by blast
  have "get_data_copy rb = drop (length xs - nat N) xs"
    using ringbuf_holds_copy [OF assms rb(2)] .
  then show ?thesis using rb(1) by auto
qed

theorem ringbuf_snapshot_most_recent_witness:
  "(1::int) \<le> 3 \<and>
   (\<exists>rb. ringbuf_add_all (ringbuf_init 3) [10, 20, 30, 40, 50, 60, 70, 80 :: int] = Inr rb \<and>
         get_data_copy rb = [60, 70, 80])"
  using ringbuf_snapshot_most_recent [of 3 "[10, 20, 30, 40, 50, 60, 70, 80 :: int]"]
  by (auto simp del: ringbuf_add_all.simps)

section \<open>Region merge\<close>

lemma map_of_bucket_ranges:
  "f \<in> fst ` set averages \<Longrightarrow>
   map_of (map (\<lambda>(f, a). (f, (f, f + bw))) averages) f = Some (f, f + (bw::int))"
  by (induction averages) auto

lemma lookup_ranges_present:
  "set fs \<subseteq> fst ` set averages \<Longrightarrow>
   lookup_ranges (map (\<lambda>(f, a). (f, (f, f + bw))) averages) fs = Inr (map (\<lambda>f. (f, f + bw)) fs)"
  by (induction fs) (simp_all add: map_of_bucket_ranges)

lemma find_signal_buckets_keys:
  "find_signal_buckets averages nf = (hs, ss) \<Longrightarrow> set hs \<subseteq> fst ` set averages"
  by (auto simp: find_signal_buckets_def Let_def)

lemma analyze_unfold:
  assumes "\<not> config_skip_analysis s"
    and "get_bucket_width s = Inr bw"
    and "compute_noise_floor (average_strengths (get_measurements_copy s)) = Inr nf"
    and "find_signal_buckets (average_strengths (get_measurements_copy s)) nf = (hs, ss)"
    and "get_contiguous_regions bw
           (map (\<lambda>(f, a). (f, (f, f + bw))) (average_strengths (get_measurements_copy s)))
           hs ss = Inr regions"
  shows "fst (analyze s) =
           Inr (Some \<lparr>noise_floor_of = nf, has_signal_of = hs, signal_strengths_of = ss,
                      contiguous_regions_of = regions,
                      drone_regions_of = get_drone_regions regions,
                      drone_detected = (get_drone_regions regions \<noteq> [])\<rparr>)"
  using assms by (simp add: analyze_def Let_def)

text \<open>
  Claim C7. When the analysis is not skipped, the bucket width is known and the noise
  floor is defined, a snapshot with no or one active bucket gives an empty list of
  contiguous regions, and \<open>analyze\<close> computes \<open>drone_detected = False\<close>.
\<close>

theorem lone_active_bucket_no_region:
  assumes "\<not> config_skip_analysis s"
    and "get_bucket_width s = Inr bw"
    and "compute_noise_floor (average_strengths (get_measurements_copy s)) = Inr nf"
    and "find_signal_buckets (average_strengths (get_measurements_copy s)) nf = (hs, ss)"
    and "length hs \<le> 1"
  shows "get_contiguous_regions bw
           (map (\<lambda>(f, a). (f, (f, f + bw))) (average_strengths (get_measurements_copy s)))
           hs ss = Inr [] \<and>
         fst (analyze s) =
           Inr (Some \<lparr>noise_floor_of = nf, has_signal_of = hs, signal_strengths_of = ss,
                      contiguous_regions_of = [], drone_regions_of = [],
                      drone_detected = False\<rparr>)"
proof -
  let ?averages = "average_strengths (get_measurements_copy s)"
  have "lookup_ranges (map (\<lambda>(f, a). (f, (f, f + bw))) ?averages) hs
          = Inr (map (\<lambda>f. (f, f + bw)) hs)"
    using find_signal_buckets_keys [OF assms(4)] by (rule lookup_ranges_present)
  then have regions:
    "get_contiguous_regions bw (map (\<lambda>(f, a). (f, (f, f + bw))) ?averages) hs ss = Inr []"
    using assms(5) by (simp add: get_contiguous_regions_def)
  from analyze_unfold [OF assms(1-4) regions] regions show ?thesis
    by (simp add: get_drone_regions_def)
qed

theorem lone_active_bucket_no_region_witness:
  "\<not> config_skip_analysis (store_of_sweep sweep_lone) \<and>
   get_bucket_width (store_of_sweep sweep_lone) = Inr 10000000 \<and>
   compute_noise_floor (average_strengths (get_measurements_copy (store_of_sweep sweep_lone)))
     = Inr (-70) \<and>
   find_signal_buckets (average_strengths (get_measurements_copy (store_of_sweep sweep_lone)))
     (-70) = ([2440000000], [-40]) \<and>
   length [2440000000 :: int] \<le> 1 \<and>
   fst (analyze (store_of_sweep sweep_lone)) =
     Inr (Some \<lparr>noise_floor_of = -70, has_signal_of = [2440000000],
                signal_strengths_of = [-40], contiguous_regions_of = [],
                drone_regions_of = [], drone_detected = False\<rparr>)"
proof -
  have h1: "\<not> config_skip_analysis (store_of_sweep sweep_lone)"
    by code_simp
  have h2: "get_bucket_width (store_of_sweep sweep_lone) = Inr 10000000"
    by code_simp
  have h3: "compute_noise_floor
              (average_strengths (get_measurements_copy (store_of_sweep sweep_lone)))
            = Inr (-70)"
    by code_simp
  have h4: "find_signal_buckets
              (average_strengths (get_measurements_copy (store_of_sweep sweep_lone))) (-70)
            = ([2440000000], [-40])"
    by code_simp
  have h5: "length [2440000000 :: int] \<le> 1"
    by simp
  from lone_active_bucket_no_region [OF h1 h2 h3 h4 h5] h1 h2 h3 h4 h5 show ?thesis
    by blast
qed

text \<open>
  Claim C1, evaluated. With exactly the two adjacent buckets at 2450 MHz and 2460 MHz
  active, \<open>analyze\<close> finds no contiguous region and computes \<open>drone_detected = False\<close>:
  the merge loop only runs for more than two active buckets. With three adjacent active
  buckets the merged region ends at the low edge of the last bucket, not its high edge.
\<close>

theorem two_adjacent_buckets_not_merged:
  "fst (analyze (store_of_sweep sweep_two_adjacent)) =
     Inr (Some \<lparr>noise_floor_of = -70, has_signal_of = [2450000000, 2460000000],
                signal_strengths_of = [-40, -40], contiguous_regions_of = [],
                drone_regions_of = [], drone_detected = False\<rparr>) \<and>
   get_contiguous_regions 10000000
     [(2450000000, (2450000000, 2460000000)), (2460000000, (2460000000, 2470000000)),
      (2470000000, (2470000000, 2480000000))]
     [2450000000, 2460000000, 2470000000] [-40, -40, -40]
   = Inr [(2450000000, 2470000000)]"
  by code_simp

text \<open>
  Claim C2, evaluated. The threshold constant of \<open>get_drone_regions\<close> is 10000, so the
  2 MHz wide region found in \<open>sweep_three_narrow\<close> counts as a drone region and
  \<open>drone_detected\<close> is true, although 2 MHz is below 10 MHz.
\<close>

theorem narrow_region_detected:
  "BANDWIDTH_THRESHOLD = 10000 \<and>
   fst (analyze (store_of_sweep sweep_three_narrow)) =
     Inr (Some \<lparr>noise_floor_of = -70,
                has_signal_of = [2405000000, 2406000000, 2407000000],
                signal_strengths_of = [-40, -40, -40],
                contiguous_regions_of = [(2405000000, 2407000000)],
                drone_regions_of = [(2405000000, 2407000000)],
                drone_detected = True\<rparr>)"
  by code_simp

section \<open>Noise floor\<close>

lemma length_average_strengths:
  "length (average_strengths snap) = length (filter (\<lambda>(f, ms). ms \<noteq> []) snap)"
proof -
  have "filter (\<lambda>(f, ms). length ms \<noteq> 0) (sort_key fst snap)
          = sort_key fst (filter (\<lambda>(f, ms). length ms \<noteq> 0) snap)"
    by (rule filter_sort)
  then show ?thesis
    by (simp add: average_strengths_def case_prod_unfold)
qed

lemma compute_noise_floor_few:
  "length averages < 4 \<Longrightarrow> compute_noise_floor averages = Inl ZeroDivisionError"
  by (simp add: compute_noise_floor_def)

lemma compute_noise_floor_enough:
  "4 \<le> length averages \<Longrightarrow>
   compute_noise_floor averages =
     Inr (sum_list (take (length averages div 4) (sort (map snd averages)))
            / real (length averages div 4))"
  by (auto simp: compute_noise_floor_def Let_def)

text \<open>
  Claim C3, amended. When the analysis is not skipped and fewer than four buckets of the
  snapshot hold a measurement, \<open>analyze\<close> raises \<open>ZeroDivisionError\<close> (the division by
  \<open>quarter_len = 0\<close> in \<open>compute_noise_floor\<close>; there is no guard and no other error
  value), leaving the store as it was. With four or more such buckets the noise floor
  is computed.
\<close>

theorem few_buckets_zero_division:
  assumes "\<not> config_skip_analysis s"
  shows "(length (filter (\<lambda>(f, ms). ms \<noteq> []) (get_measurements_copy s)) < 4 \<longrightarrow>
            analyze s = (Inl ZeroDivisionError, s)) \<and>
         (4 \<le> length (filter (\<lambda>(f, ms). ms \<noteq> []) (get_measurements_copy s)) \<longrightarrow>
            (\<exists>nf. compute_noise_floor (average_strengths (get_measurements_copy s)) = Inr nf))"
proof (intro conjI impI)
  assume "length (filter (\<lambda>(f, ms). ms \<noteq> []) (get_measurements_copy s)) < 4"
  then have "compute_noise_floor (average_strengths (get_measurements_copy s))
               = Inl ZeroDivisionError"
    by (simp add: compute_noise_floor_few length_average_strengths)
  then show "analyze s = (Inl ZeroDivisionError, s)"
    using assms by (simp add: analyze_def)
next
  assume "4 \<le> length (filter (\<lambda>(f, ms). ms \<noteq> []) (get_measurements_copy s))"
  then have "4 \<le> length (average_strengths (get_measurements_copy s))"
    by (simp add: length_average_strengths)
  from compute_noise_floor_enough [OF this]
  show "\<exists>nf. compute_noise_floor (average_strengths (get_measurements_copy s)) = Inr nf"
    by blast
qed

theorem few_buckets_zero_division_witness:
  "\<not> config_skip_analysis (store_of_sweep sweep_three_buckets) \<and>
   length (filter (\<lambda>(f, ms). ms \<noteq> [])
     (get_measurements_copy (store_of_sweep sweep_three_buckets))) < 4 \<and>
   analyze (store_of_sweep sweep_three_buckets)
     = (Inl ZeroDivisionError, store_of_sweep sweep_three_buckets) \<and>
   \<not> config_skip_analysis (store_of_sweep sweep_lone) \<and>
   4 \<le> length (filter (\<lambda>(f, ms). ms \<noteq> [])
     (get_measurements_copy (store_of_sweep sweep_lone))) \<and>
   (\<exists>nf. compute_noise_floor
           (average_strengths (get_measurements_copy (store_of_sweep sweep_lone))) = Inr nf)"
proof -
  have a1: "\<not> config_skip_analysis (store_of_sweep sweep_three_buckets)"
    by code_simp
  have a2: "length (filter (\<lambda>(f, ms). ms \<noteq> [])
              (get_measurements_copy (store_of_sweep sweep_three_buckets))) < 4"
    by code_simp
  have b1: "\<not> config_skip_analysis (store_of_sweep sweep_lone)"
    by code_simp
  have b2: "4 \<le> length (filter (\<lambda>(f, ms). ms \<noteq> [])
              (get_measurements_copy (store_of_sweep sweep_lone)))"
    by code_simp
  from few_buckets_zero_division [OF a1] few_buckets_zero_division [OF b1] a1 a2 b1 b2
  show ?thesis by blast
qed

text \<open>
  Three buckets with data: the outcome of \<open>analyze\<close> is the \<open>ZeroDivisionError\<close> raised
  by the division in \<open>compute_noise_floor\<close>.
\<close>

theorem three_buckets_uncaught_zero_division:
  "fst (analyze (store_of_sweep sweep_three_buckets)) = Inl ZeroDivisionError"
  by code_simp

section \<open>The analysis reads the store only\<close>

text \<open>
  Claim C9, amended. \<open>analyze\<close> leaves the store exactly as it was, and its outcome
  depends only on the snapshot, the bucket width and the \<open>skip_analysis\<close> flag of the
  store's configuration.
\<close>

theorem analyze_frame:
  assumes "get_measurements_copy s1 = get_measurements_copy s2"
    and "bucket_width s1 = bucket_width s2"
    and "config_skip_analysis s1 = config_skip_analysis s2"
  shows "snd (analyze s1) = s1 \<and> snd (analyze s2) = s2 \<and> fst (analyze s1) = fst (analyze s2)"
proof -
  have frame: "snd (analyze s) = s" for s
    by (simp add: analyze_def Let_def split: sum.splits prod.splits)
  have "get_bucket_width s1 = get_bucket_width s2"
    using assms(2) by (simp add: get_bucket_width_def)
  then have "fst (analyze s1) = fst (analyze s2)"
    using assms(1,3) by (simp add: analyze_def Let_def split: sum.splits prod.splits)
  with frame show ?thesis by simp
qed

theorem analyze_frame_witness:
  "get_measurements_copy (store_of_sweep sweep_lone)
     = get_measurements_copy ((store_of_sweep sweep_lone)\<lparr>BUFSIZE := 7\<rparr>) \<and>
   bucket_width (store_of_sweep sweep_lone)
     = bucket_width ((store_of_sweep sweep_lone)\<lparr>BUFSIZE := 7\<rparr>) \<and>
   config_skip_analysis (store_of_sweep sweep_lone)
     = config_skip_analysis ((store_of_sweep sweep_lone)\<lparr>BUFSIZE := 7\<rparr>) \<and>
   snd (analyze (store_of_sweep sweep_lone)) = store_of_sweep sweep_lone \<and>
   fst (analyze (store_of_sweep sweep_lone))
     = fst (analyze ((store_of_sweep sweep_lone)\<lparr>BUFSIZE := 7\<rparr>))"
  using analyze_frame [of "store_of_sweep sweep_lone" "(store_of_sweep sweep_lone)\<lparr>BUFSIZE := 7\<rparr>"]
  by (simp add: get_measurements_copy_def)

text \<open>
  Two stores with the same snapshot and the same bucket width, one of them configured to
  skip the analysis: the outcomes differ.
\<close>

theorem analyze_depends_on_skip_flag:
  "get_measurements_copy ((store_of_sweep sweep_lone)\<lparr>config_skip_analysis := True\<rparr>)
     = get_measurements_copy (store_of_sweep sweep_lone) \<and>
   bucket_width ((store_of_sweep sweep_lone)\<lparr>config_skip_analysis := True\<rparr>)
     = bucket_width (store_of_sweep sweep_lone) \<and>
   fst (analyze ((store_of_sweep sweep_lone)\<lparr>config_skip_analysis := True\<rparr>))
     \<noteq> fst (analyze (store_of_sweep sweep_lone))"
  by code_simp

section \<open>The warmup state is monotonic\<close>

text \<open>
  \<open>buffers_kept s s'\<close>: every ring buffer of \<open>s\<close> is still there in \<open>s'\<close>, with the same
  size. \<open>loop_frame\<close> is what one pass of the loop over the measurements preserves;
  \<open>warmup_monotone\<close> is what a whole call preserves.
\<close>

definition buffers_kept :: "signal_store \<Rightarrow> signal_store \<Rightarrow> bool" where
  "buffers_kept s s' =
     (\<forall>k rb. map_of (ranges s) k = Some rb \<longrightarrow>
        (\<exists>rb'. map_of (ranges s') k = Some rb' \<and> rb_size rb' = rb_size rb))"

definition loop_frame :: "signal_store \<Rightarrow> signal_store \<Rightarrow> bool" where
  "loop_frame s s' =
     (warmed_up s' = warmed_up s \<and> BUFSIZE s' = BUFSIZE s \<and>
      bucket_width s' = bucket_width s \<and>
      config_skip_analysis s' = config_skip_analysis s \<and>
      warmup_bucket_frequency s' = warmup_bucket_frequency s \<and>
      warmup_first_datetime s' = warmup_first_datetime s \<and>
      (warmed_up s \<longrightarrow> warmup_measurement_count s' = warmup_measurement_count s \<and>
                      warmup_resize_ringbufs s' = warmup_resize_ringbufs s) \<and>
      buffers_kept s s')"

lemma buffers_kept_refl: "buffers_kept s s"
  by (simp add: buffers_kept_def)

lemma buffers_kept_trans: "buffers_kept s s' \<Longrightarrow> buffers_kept s' s'' \<Longrightarrow> buffers_kept s s''"
  unfolding buffers_kept_def by (metis)

lemma loop_frame_refl: "loop_frame s s"
  by (simp add: loop_frame_def buffers_kept_refl)

lemma loop_frame_trans: "loop_frame s s' \<Longrightarrow> loop_frame s' s'' \<Longrightarrow> loop_frame s s''"
  unfolding loop_frame_def using buffers_kept_trans by auto

lemma ringbuf_add_size: "ringbuf_add rb v = Inr rb' \<Longrightarrow> rb_size rb' = rb_size rb"
  by (auto simp: ringbuf_add_def Let_def split: if_splits)

lemma warmup_count_frame: "loop_frame s (store_after (warmup_count s m))"
  by (auto simp: warmup_count_def store_after_def loop_frame_def buffers_kept_def is_warmed_up_def
      Let_def split: option.splits)

lemma store_measurement_frame: "loop_frame s (store_after (store_measurement s m))"
  by (auto simp: store_measurement_def store_after_def loop_frame_def buffers_kept_def
      Let_def update_conv' ringbuf_init_def dest: ringbuf_add_size split: option.splits sum.splits)

lemma add_measurement_frame: "loop_frame s (store_after (add_measurement s m))"
proof (cases "warmup_count s m")
  case (Inl a)
  then show ?thesis using warmup_count_frame [of s m]
    by (simp add: add_measurement_def store_after_def)
next
  case (Inr s1)
  then have "loop_frame s s1" using warmup_count_frame [of s m] by (simp add: store_after_def)
  moreover have "loop_frame s1 (store_after (store_measurement s1 m))"
    by (rule store_measurement_frame)
  ultimately have "loop_frame s (store_after (store_measurement s1 m))"
    by (rule loop_frame_trans)
  then show ?thesis using Inr by (simp add: add_measurement_def)
qed

lemma add_each_rel:
  assumes refl: "\<And>s. R s s" and trans: "\<And>s s' s''. R s s' \<Longrightarrow> R s' s'' \<Longrightarrow> R s s''"
    and step: "\<And>s m. R s (store_after (add_measurement s m))"
  shows "R s (store_after (add_each s ms))"
proof (induction ms arbitrary: s)
  case Nil
  show ?case by (simp add: store_after_def refl)
next
  case (Cons m ms)
  show ?case
  proof (cases "add_measurement s m")
    case (Inl a)
    then show ?thesis using step [of s m] by simp
  next
    case (Inr s1)
    then have "R s s1" using step [of s m] by (simp add: store_after_def)
    then have "R s (store_after (add_each s1 ms))"
      using Cons [of s1] by (rule trans)
    then show ?thesis using Inr by simp
  qed
qed

lemma add_each_frame: "loop_frame s (store_after (add_each s ms))"
proof (rule add_each_rel [where R = loop_frame])
  show "loop_frame s s" for s by (rule loop_frame_refl)
  show "loop_frame s s' \<Longrightarrow> loop_frame s' s'' \<Longrightarrow> loop_frame s s''" for s s' s''
    by (rule loop_frame_trans)
  show "loop_frame s (store_after (add_measurement s m))" for s m
    by (rule add_measurement_frame)
qed

lemma store_after_bind:
  "store_after (case r of Inl e \<Rightarrow> Inl e | Inr s' \<Rightarrow> g s') =
     (case r of Inl (e, s0) \<Rightarrow> s0 | Inr s' \<Rightarrow> store_after (g s'))"
  by (cases r) (auto simp: store_after_def)

definition warmup_monotone :: "signal_store \<Rightarrow> signal_store \<Rightarrow> bool" where
  "warmup_monotone s s' =
     ((warmed_up s \<longrightarrow> warmed_up s' \<and> BUFSIZE s' = BUFSIZE s \<and> buffers_kept s s') \<and>
      (\<not> warmed_up s' \<longrightarrow> \<not> warmed_up s \<and> BUFSIZE s' = BUFSIZE s))"

lemma warmup_monotone_refl: "warmup_monotone s s"
  by (simp add: warmup_monotone_def buffers_kept_refl)

lemma warmup_monotone_trans:
  assumes a: "warmup_monotone s s'" and b: "warmup_monotone s' s''"
  shows "warmup_monotone s s''"
proof -
  have warm: "warmed_up s'' \<and> BUFSIZE s'' = BUFSIZE s \<and> buffers_kept s s''" if w: "warmed_up s"
  proof -
    from a w have 1: "warmed_up s'" "BUFSIZE s' = BUFSIZE s" "buffers_kept s s'"
      by (simp_all add: warmup_monotone_def)
    from b 1(1) have 2: "warmed_up s''" "BUFSIZE s'' = BUFSIZE s'" "buffers_kept s' s''"
      by (simp_all add: warmup_monotone_def)
    from 1(3) 2(3) have "buffers_kept s s''" by (rule buffers_kept_trans)
    with 1 2 show ?thesis by simp
  qed
  have cold: "\<not> warmed_up s \<and> BUFSIZE s'' = BUFSIZE s" if c: "\<not> warmed_up s''"
  proof -
    from b c have 1: "\<not> warmed_up s'" "BUFSIZE s'' = BUFSIZE s'"
      by (simp_all add: warmup_monotone_def)
    from a 1(1) have "\<not> warmed_up s" "BUFSIZE s' = BUFSIZE s"
      by (simp_all add: warmup_monotone_def)
    with 1 show ?thesis by simp
  qed
  from warm cold show ?thesis by (simp add: warmup_monotone_def)
qed

lemma loop_frame_monotone: "loop_frame s s' \<Longrightarrow> warmup_monotone s s'"
  by (simp add: loop_frame_def warmup_monotone_def)

lemma note_bucket_width_monotone:
  "warmup_monotone s (store_after (note_bucket_width s ms))"
  by (auto simp: note_bucket_width_def store_after_def warmup_monotone_def buffers_kept_def
      split: list.splits)

lemma pick_warmup_bucket_monotone:
  "warmup_monotone s (store_after (pick_warmup_bucket s ms))"
  by (auto simp: pick_warmup_bucket_def store_after_def warmup_monotone_def buffers_kept_def
      split: list.splits)

lemma complete_warmup_monotone: "warmup_monotone s (complete_warmup s)"
  by (auto simp: complete_warmup_def warmup_monotone_def buffers_kept_def is_warmed_up_def)

lemma add_measurements_monotone:
  "warmup_monotone s (store_after (add_measurements s ms))"
proof (cases "note_bucket_width s ms")
  case (Inl a)
  then show ?thesis using note_bucket_width_monotone [of s ms]
    by (simp add: add_measurements_def)
next
  case s1: (Inr s1)
  then have m1: "warmup_monotone s s1"
    using note_bucket_width_monotone [of s ms] by (simp add: store_after_def)
  show ?thesis
  proof (cases "pick_warmup_bucket s1 ms")
    case (Inl a)
    then have "store_after (add_measurements s ms) = store_after (pick_warmup_bucket s1 ms)"
      using s1 by (simp add: add_measurements_def store_after_def)
    then show ?thesis
      using warmup_monotone_trans [OF m1 pick_warmup_bucket_monotone [of s1 ms]] by simp
  next
    case s2: (Inr s2)
    then have "warmup_monotone s1 s2"
      using pick_warmup_bucket_monotone [of s1 ms] by (simp add: store_after_def)
    with m1 have "warmup_monotone s s2" by (rule warmup_monotone_trans)
    then have "warmup_monotone s (complete_warmup s2)"
      using complete_warmup_monotone by (rule warmup_monotone_trans)
    moreover have "warmup_monotone (complete_warmup s2)
                     (store_after (add_each (complete_warmup s2) ms))"
      by (rule loop_frame_monotone) (rule add_each_frame)
    ultimately have "warmup_monotone s (store_after (add_each (complete_warmup s2) ms))"
      by (rule warmup_monotone_trans)
    then show ?thesis using s1 s2 by (simp add: add_measurements_def)
  qed
qed

lemma add_batches_append:
  "add_batches s (xs @ ys) =
     (case add_batches s xs of Inl e \<Rightarrow> Inl e | Inr s1 \<Rightarrow> add_batches s1 ys)"
  by (induction xs arbitrary: s) (auto split: sum.splits)

lemma add_batches_monotone: "warmup_monotone s (store_after (add_batches s bs))"
proof (induction bs arbitrary: s)
  case Nil
  show ?case by (simp add: store_after_def warmup_monotone_refl)
next
  case (Cons b bs)
  show ?case
  proof (cases "add_measurements s b")
    case (Inl a)
    then show ?thesis using add_measurements_monotone [of s b] by simp
  next
    case (Inr s1)
    then have "warmup_monotone s s1"
      using add_measurements_monotone [of s b] by (simp add: store_after_def)
    then have "warmup_monotone s (store_after (add_batches s1 bs))"
      using Cons [of s1] by (rule warmup_monotone_trans)
    then show ?thesis using Inr by simp
  qed
qed

lemma store_at_monotone:
  assumes "i \<le> j"
  shows "warmup_monotone (store_at s bs i) (store_at s bs j)"
proof -
  have "take i (take j bs) = take i bs"
    using assms by (simp add: min.absorb1)
  then have h: "take i bs @ drop i (take j bs) = take j bs"
    using append_take_drop_id [of i "take j bs"] by simp
  have eq: "add_batches s (take j bs) =
      (case add_batches s (take i bs) of Inl e \<Rightarrow> Inl e
       | Inr s1 \<Rightarrow> add_batches s1 (drop i (take j bs)))"
    unfolding add_batches_append [symmetric] h ..
  show ?thesis
  proof (cases "add_batches s (take i bs)")
    case (Inl a)
    then show ?thesis using eq by (simp add: store_at_def warmup_monotone_refl)
  next
    case (Inr s1)
    then show ?thesis using eq add_batches_monotone [of s1 "drop i (take j bs)"]
      by (simp add: store_at_def store_after_def)
  qed
qed


text \<open>
  Claim C8. For every store and every sequence of \<open>add_measurements\<close> calls (a raised
  exception ends the sequence), and all \<open>i \<le> j\<close>: if the store is warmed up after the
  first \<open>i\<close> calls, it is warmed up after the first \<open>j\<close> calls, with the same \<open>_BUFSIZE\<close>
  and with every ring buffer kept at its size; and if it is not warmed up after \<open>j\<close>
  calls, it was not after \<open>i\<close> calls and \<open>_BUFSIZE\<close> has not changed. So \<open>_BUFSIZE\<close>
  changes only in the one call that makes the store warmed up.
\<close>

theorem warmup_monotonic:
  assumes "i \<le> j"
  shows "(is_warmed_up (store_at s bs i) \<longrightarrow>
            is_warmed_up (store_at s bs j) \<and>
            BUFSIZE (store_at s bs j) = BUFSIZE (store_at s bs i) \<and>
            (\<forall>k rb. map_of (ranges (store_at s bs i)) k = Some rb \<longrightarrow>
               (\<exists>rb'. map_of (ranges (store_at s bs j)) k = Some rb' \<and>
                      rb_size rb' = rb_size rb))) \<and>
         (\<not> is_warmed_up (store_at s bs j) \<longrightarrow>
            \<not> is_warmed_up (store_at s bs i) \<and>
            BUFSIZE (store_at s bs j) = BUFSIZE (store_at s bs i))"
  using store_at_monotone [OF assms, of s bs]
  by (simp add: warmup_monotone_def buffers_kept_def is_warmed_up_def)

theorem warmup_monotonic_witness:
  "(3::nat) \<le> 4 \<and>
   is_warmed_up (store_at (signal_store_init False) warmup_sweeps 3) \<and>
   is_warmed_up (store_at (signal_store_init False) warmup_sweeps 4) \<and>
   BUFSIZE (store_at (signal_store_init False) warmup_sweeps 4)
     = BUFSIZE (store_at (signal_store_init False) warmup_sweeps 3) \<and>
   (1::nat) \<le> 2 \<and>
   \<not> is_warmed_up (store_at (signal_store_init False) warmup_sweeps 2) \<and>
   \<not> is_warmed_up (store_at (signal_store_init False) warmup_sweeps 1) \<and>
   BUFSIZE (store_at (signal_store_init False) warmup_sweeps 2)
     = BUFSIZE (store_at (signal_store_init False) warmup_sweeps 1)"
proof -
  have w3: "is_warmed_up (store_at (signal_store_init False) warmup_sweeps 3)"
    by code_simp
  have c2: "\<not> is_warmed_up (store_at (signal_store_init False) warmup_sweeps 2)"
    by code_simp
  have le: "(3::nat) \<le> 4" "(1::nat) \<le> 2"
    by simp_all
  from warmup_monotonic [OF le(1), of "signal_store_init False" warmup_sweeps]
    warmup_monotonic [OF le(2), of "signal_store_init False" warmup_sweeps] w3 c2 le
  show ?thesis by blast
qed

section \<open>The empty batch\<close>

text \<open>
  Claim C5, amended. \<open>add_measurements\<close> with an empty batch raises \<open>IndexError\<close> from
  reading \<open>measurements[0]\<close>, before any mutation, exactly when the bucket width or the
  warmup bucket is not set (\<open>None\<close> or \<open>0\<close>). Otherwise it raises nothing and does what
  the resize check does: it completes a signalled warmup, or leaves the store as it is.
\<close>

theorem empty_batch:
  "add_measurements s [] =
     (if bucket_width_set s \<and> warmup_bucket_frequency s \<noteq> 0
      then Inr (complete_warmup s) else Inl (IndexError, s))"
  by (simp add: add_measurements_def note_bucket_width_def pick_warmup_bucket_def)

theorem empty_batch_witness:
  "bucket_width_set (store_at (signal_store_init False) warmup_sweeps 2) \<and>
   warmup_bucket_frequency (store_at (signal_store_init False) warmup_sweeps 2) \<noteq> 0 \<and>
   add_measurements (store_at (signal_store_init False) warmup_sweeps 2) []
     = Inr (complete_warmup (store_at (signal_store_init False) warmup_sweeps 2)) \<and>
   add_measurements (signal_store_init False) []
     = Inl (IndexError, signal_store_init False)"
proof -
  have h: "bucket_width_set (store_at (signal_store_init False) warmup_sweeps 2)"
    "warmup_bucket_frequency (store_at (signal_store_init False) warmup_sweeps 2) \<noteq> 0"
    by code_simp+
  have i: "\<not> bucket_width_set (signal_store_init False)"
    by code_simp
  from empty_batch [of "store_at (signal_store_init False) warmup_sweeps 2"]
    empty_batch [of "signal_store_init False"] h i
  show ?thesis by simp
qed

text \<open>
  After the first two sweeps of \<open>warmup_sweeps\<close> the resize signal is pending: a call
  with an empty batch returns without an exception, makes the store warmed up, sets
  \<open>_BUFSIZE\<close> to 2 and deletes both ring buffers.
\<close>

theorem empty_batch_accepted_and_resizes:
  "\<not> is_warmed_up (store_at (signal_store_init False) warmup_sweeps 2) \<and>
   BUFSIZE (store_at (signal_store_init False) warmup_sweeps 2) = 200 \<and>
   map fst (ranges (store_at (signal_store_init False) warmup_sweeps 2))
     = [2400000000, 2401000000] \<and>
   \<not> isl (add_measurements (store_at (signal_store_init False) warmup_sweeps 2) []) \<and>
   is_warmed_up (store_after
     (add_measurements (store_at (signal_store_init False) warmup_sweeps 2) [])) \<and>
   BUFSIZE (store_after
     (add_measurements (store_at (signal_store_init False) warmup_sweeps 2) [])) = 2 \<and>
   ranges (store_after
     (add_measurements (store_at (signal_store_init False) warmup_sweeps 2) [])) = []"
  by code_simp

section \<open>Calls that return\<close>

text \<open>
  \<open>ringbuf_ok\<close>: the cursor of a full buffer is a valid index, the cursor of a buffer
  that is not full is 0. \<open>store_ok\<close>: every ring buffer of the store is such, and a
  warmup bucket other than 0 comes with a first timestamp. On such a store
  \<open>add_measurements\<close> with a non-empty batch returns, and the store stays such.
\<close>

definition ringbuf_ok :: "'a ringbuf \<Rightarrow> bool" where
  "ringbuf_ok rb =
     (if rb_full rb then rb_cursor rb < length (rb_data rb) else rb_cursor rb = 0)"

definition buffers_ok :: "signal_store \<Rightarrow> bool" where
  "buffers_ok s = (\<forall>k rb. map_of (ranges s) k = Some rb \<longrightarrow> ringbuf_ok rb)"

lemma ringbuf_init_ok: "ringbuf_ok (ringbuf_init n)"
  by (simp add: ringbuf_ok_def ringbuf_init_def)

lemma ringbuf_add_ok:
  assumes "ringbuf_ok rb"
  shows "\<exists>rb'. ringbuf_add rb v = Inr rb' \<and> ringbuf_ok rb'"
proof (cases "rb_full rb")
  case True
  with assms have c: "rb_cursor rb < length (rb_data rb)" by (simp add: ringbuf_ok_def)
  then have "0 < length (rb_data rb)" by linarith
  then have "Suc (rb_cursor rb) mod length (rb_data rb) < length (rb_data rb)"
    by (rule mod_less_divisor)
  with True c show ?thesis by (simp add: ringbuf_add_def ringbuf_ok_def)
next
  case False
  with assms show ?thesis by (simp add: ringbuf_add_def ringbuf_ok_def Let_def)
qed

lemma buffers_ok_update:
  assumes "buffers_ok s" and "ringbuf_ok rb'"
  shows "buffers_ok (s\<lparr>ranges := AList.update k rb' (ranges s)\<rparr>)"
  using assms by (simp add: buffers_ok_def update_conv')

lemma store_measurement_returns:
  assumes "buffers_ok s"
  shows "\<exists>s'. store_measurement s m = Inr s' \<and> buffers_ok s'"
proof (cases "map_of (ranges s) (hz_low m)")
  case None
  have "ringbuf_ok (ringbuf_init (BUFSIZE s) :: measurement ringbuf)"
    by (rule ringbuf_init_ok)
  from ringbuf_add_ok [OF this, of m]
  obtain rb' where rb': "ringbuf_add (ringbuf_init (BUFSIZE s)) m = Inr rb'" "ringbuf_ok rb'"
    by auto
  have "buffers_ok (s\<lparr>ranges := AList.update (hz_low m) rb' (ranges s)\<rparr>)"
    using assms rb'(2) by (rule buffers_ok_update)
  moreover have "store_measurement s m
      = Inr (s\<lparr>ranges := AList.update (hz_low m) rb' (ranges s)\<rparr>)"
    using None rb'(1) by (simp add: store_measurement_def Let_def update_last)
  ultimately show ?thesis by simp
next
  case (Some rb)
  with assms have "ringbuf_ok rb" by (simp add: buffers_ok_def)
  from ringbuf_add_ok [OF this, of m]
  obtain rb' where rb': "ringbuf_add rb m = Inr rb'" "ringbuf_ok rb'"
    by auto
  have "buffers_ok (s\<lparr>ranges := AList.update (hz_low m) rb' (ranges s)\<rparr>)"
    using assms rb'(2) by (rule buffers_ok_update)
  moreover have "store_measurement s m
      = Inr (s\<lparr>ranges := AList.update (hz_low m) rb' (ranges s)\<rparr>)"
    using Some rb'(1) by (simp add: store_measurement_def)
  ultimately show ?thesis by simp
qed

lemma store_measurement_keeps:
  "store_measurement s m = Inr s' \<Longrightarrow>
   warmup_measurement_count s' = warmup_measurement_count s \<and>
   warmup_resize_ringbufs s' = warmup_resize_ringbufs s"
  by (auto simp: store_measurement_def Let_def split: option.splits sum.splits)

lemma warmup_count_returns:
  assumes "warmup_first_datetime s = Some t0"
  shows "\<exists>s'. warmup_count s m = Inr s' \<and> ranges s' = ranges s"
  using assms by (simp add: warmup_count_def Let_def)

lemma warmup_count_counts:
  assumes "warmup_count s m = Inr s'" and "warmup_first_datetime s = Some t0"
    and "\<not> warmed_up s"
  shows "warmup_measurement_count s' = warmup_measurement_count s +
           (if hz_low m = warmup_bucket_frequency s then 1 else 0) \<and>
         (warmup_resize_ringbufs s' \<longleftrightarrow> warmup_resize_ringbufs s \<or>
            (hz_low m = warmup_bucket_frequency s \<and> datetime m - t0 > 1))"
  using assms by (auto simp: warmup_count_def is_warmed_up_def Let_def split: if_splits)

lemma add_measurement_returns:
  assumes "buffers_ok s" and "warmup_first_datetime s = Some t0"
  shows "\<exists>s'. add_measurement s m = Inr s' \<and> buffers_ok s'"
proof -
  from warmup_count_returns [OF assms(2), of m]
  obtain s1 where s1: "warmup_count s m = Inr s1" "ranges s1 = ranges s" by auto
  have "buffers_ok s1" using assms(1) s1(2) by (simp add: buffers_ok_def)
  from store_measurement_returns [OF this, of m]
  obtain s' where s': "store_measurement s1 m = Inr s'" "buffers_ok s'" by auto
  have "add_measurement s m = Inr s'" using s1(1) s'(1) by (simp add: add_measurement_def)
  with s'(2) show ?thesis by simp
qed

lemma add_measurement_counts:
  assumes "add_measurement s m = Inr s'" and "warmup_first_datetime s = Some t0"
    and "\<not> warmed_up s"
  shows "warmup_measurement_count s' = warmup_measurement_count s +
           (if hz_low m = warmup_bucket_frequency s then 1 else 0) \<and>
         (warmup_resize_ringbufs s' \<longleftrightarrow> warmup_resize_ringbufs s \<or>
            (hz_low m = warmup_bucket_frequency s \<and> datetime m - t0 > 1))"
proof -
  from assms(1) obtain s1 where s1: "warmup_count s m = Inr s1" "store_measurement s1 m = Inr s'"
    by (auto simp: add_measurement_def split: sum.splits)
  from store_measurement_keeps [OF s1(2)] warmup_count_counts [OF s1(1) assms(2,3)]
  show ?thesis by simp
qed

lemma frame_of_returned:
  "f = Inr s' \<Longrightarrow> loop_frame s (store_after f) \<Longrightarrow> loop_frame s s'"
  by (simp add: store_after_def)

lemma add_each_returns:
  assumes "buffers_ok s" and "warmup_first_datetime s = Some t0"
  shows "\<exists>s'. add_each s ms = Inr s' \<and> buffers_ok s'"
  using assms
proof (induction ms arbitrary: s)
  case Nil
  then show ?case by simp
next
  case (Cons m ms)
  from add_measurement_returns [OF Cons.prems, of m]
  obtain s1 where s1: "add_measurement s m = Inr s1" "buffers_ok s1" by auto
  have "loop_frame s s1"
    using s1(1) add_measurement_frame [of s m] by (rule frame_of_returned)
  then have "warmup_first_datetime s1 = Some t0"
    using Cons.prems(2) by (simp add: loop_frame_def)
  from Cons.IH [OF s1(2) this]
  obtain s' where "add_each s1 ms = Inr s'" "buffers_ok s'" by auto
  with s1(1) show ?case by simp
qed

lemma add_each_counts:
  assumes "add_each s ms = Inr s'" and "warmup_first_datetime s = Some t0"
    and "\<not> warmed_up s"
  shows "warmup_measurement_count s' = warmup_measurement_count s +
           int (length (filter (\<lambda>m. hz_low m = warmup_bucket_frequency s) ms)) \<and>
         (warmup_resize_ringbufs s' \<longleftrightarrow> warmup_resize_ringbufs s \<or>
            (\<exists>m\<in>set ms. hz_low m = warmup_bucket_frequency s \<and> datetime m - t0 > 1))"
  using assms
proof (induction ms arbitrary: s)
  case Nil
  then show ?case by simp
next
  case (Cons m ms)
  from Cons.prems(1) obtain s1 where s1: "add_measurement s m = Inr s1" "add_each s1 ms = Inr s'"
    by (auto split: sum.splits)
  have "loop_frame s s1"
    using s1(1) add_measurement_frame [of s m] by (rule frame_of_returned)
  then have same: "warmup_first_datetime s1 = Some t0" "\<not> warmed_up s1"
    "warmup_bucket_frequency s1 = warmup_bucket_frequency s"
    using Cons.prems(2,3) by (simp_all add: loop_frame_def)
  have step: "warmup_measurement_count s1 = warmup_measurement_count s +
           (if hz_low m = warmup_bucket_frequency s then 1 else 0)"
    "warmup_resize_ringbufs s1 \<longleftrightarrow> warmup_resize_ringbufs s \<or>
            (hz_low m = warmup_bucket_frequency s \<and> datetime m - t0 > 1)"
    using add_measurement_counts [OF s1(1) Cons.prems(2,3)] by simp_all
  have rest: "warmup_measurement_count s' = warmup_measurement_count s1 +
           int (length (filter (\<lambda>m. hz_low m = warmup_bucket_frequency s) ms))"
    "warmup_resize_ringbufs s' \<longleftrightarrow> warmup_resize_ringbufs s1 \<or>
            (\<exists>m\<in>set ms. hz_low m = warmup_bucket_frequency s \<and> datetime m - t0 > 1)"
    using Cons.IH [OF s1(2) same(1,2)] same(3) by simp_all
  show ?case
  proof (intro conjI)
    show "warmup_measurement_count s' = warmup_measurement_count s +
           int (length (filter (\<lambda>m. hz_low m = warmup_bucket_frequency s) (m # ms)))"
      using step(1) rest(1) by simp
    show "warmup_resize_ringbufs s' \<longleftrightarrow> warmup_resize_ringbufs s \<or>
            (\<exists>m\<in>set (m # ms). hz_low m = warmup_bucket_frequency s \<and> datetime m - t0 > 1)"
      using step(2) rest(2) by auto
  qed
qed

definition store_ok :: "signal_store \<Rightarrow> bool" where
  "store_ok s =
     (buffers_ok s \<and> (warmup_bucket_frequency s = 0 \<or> warmup_first_datetime s \<noteq> None))"

definition prepared :: "signal_store \<Rightarrow> measurement \<Rightarrow> signal_store" where
  "prepared s m0 =
     (let s1 = (if \<not> bucket_width_set s
                then s\<lparr>bucket_width := Some (hz_high m0 - hz_low m0)\<rparr> else s)
      in if warmup_bucket_frequency s1 = 0
         then s1\<lparr>warmup_bucket_frequency := hz_low m0,
                 warmup_first_datetime := Some (datetime m0)\<rparr>
         else s1)"

lemma add_measurements_Cons:
  "add_measurements s (m0 # rest) = add_each (complete_warmup (prepared s m0)) (m0 # rest)"
  by (simp add: add_measurements_def note_bucket_width_def pick_warmup_bucket_def prepared_def)

lemma prepared_fields:
  "ranges (prepared s m0) = ranges s"
  "BUFSIZE (prepared s m0) = BUFSIZE s"
  "warmed_up (prepared s m0) = warmed_up s"
  "warmup_measurement_count (prepared s m0) = warmup_measurement_count s"
  "warmup_resize_ringbufs (prepared s m0) = warmup_resize_ringbufs s"
  "warmup_bucket_frequency (prepared s m0) =
     (if warmup_bucket_frequency s = 0 then hz_low m0 else warmup_bucket_frequency s)"
  "warmup_first_datetime (prepared s m0) =
     (if warmup_bucket_frequency s = 0 then Some (datetime m0) else warmup_first_datetime s)"
  by (simp_all add: prepared_def Let_def)

lemma complete_warmup_fields:
  "warmup_bucket_frequency (complete_warmup s) = warmup_bucket_frequency s"
  "warmup_first_datetime (complete_warmup s) = warmup_first_datetime s"
  "warmup_measurement_count (complete_warmup s) = warmup_measurement_count s"
  by (simp_all add: complete_warmup_def)

lemma complete_warmup_buffers_ok: "buffers_ok s \<Longrightarrow> buffers_ok (complete_warmup s)"
  by (simp add: complete_warmup_def buffers_ok_def)

lemma add_measurements_reference:
  assumes "add_measurements s (m0 # rest) = Inr s'"
  shows "warmup_bucket_frequency s' =
           (if warmup_bucket_frequency s = 0 then hz_low m0 else warmup_bucket_frequency s) \<and>
         warmup_first_datetime s' =
           (if warmup_bucket_frequency s = 0 then Some (datetime m0)
            else warmup_first_datetime s)"
proof -
  have e: "add_each (complete_warmup (prepared s m0)) (m0 # rest) = Inr s'"
    using assms by (simp only: add_measurements_Cons)
  have "loop_frame (complete_warmup (prepared s m0)) s'"
    using e add_each_frame [of "complete_warmup (prepared s m0)" "m0 # rest"]
    by (rule frame_of_returned)
  then have "warmup_bucket_frequency s' = warmup_bucket_frequency (prepared s m0)"
    "warmup_first_datetime s' = warmup_first_datetime (prepared s m0)"
    by (simp_all add: loop_frame_def complete_warmup_fields)
  then show ?thesis by (simp add: prepared_fields)
qed

lemma add_measurements_returns:
  assumes "store_ok s"
  shows "\<exists>s'. add_measurements s (m0 # rest) = Inr s' \<and> store_ok s'"
proof -
  let ?p = "complete_warmup (prepared s m0)"
  have "buffers_ok (prepared s m0)"
    using assms by (simp add: store_ok_def buffers_ok_def prepared_fields)
  then have ok: "buffers_ok ?p" by (rule complete_warmup_buffers_ok)
  have "\<exists>t0. warmup_first_datetime ?p = Some t0"
  proof (cases "warmup_bucket_frequency s = 0")
    case True
    then show ?thesis by (simp add: complete_warmup_fields prepared_fields)
  next
    case False
    with assms have "warmup_first_datetime s \<noteq> None" by (simp add: store_ok_def)
    with False show ?thesis by (simp add: complete_warmup_fields prepared_fields)
  qed
  then obtain t0 where t0: "warmup_first_datetime ?p = Some t0" ..
  from add_each_returns [OF ok t0, of "m0 # rest"]
  obtain s' where s': "add_each ?p (m0 # rest) = Inr s'" "buffers_ok s'" by auto
  have "loop_frame ?p s'"
    using s'(1) add_each_frame [of ?p "m0 # rest"] by (rule frame_of_returned)
  then have "warmup_first_datetime s' = Some t0"
    using t0 by (simp add: loop_frame_def)
  then have "store_ok s'" using s'(2) by (simp add: store_ok_def)
  moreover have "add_measurements s (m0 # rest) = Inr s'"
    using s'(1) by (simp only: add_measurements_Cons)
  ultimately show ?thesis by simp
qed

lemma add_measurements_resize:
  assumes "add_measurements s (m0 # rest) = Inr s'"
    and "\<not> warmed_up s" and "warmup_resize_ringbufs s"
  shows "warmed_up s' \<and> BUFSIZE s' = warmup_measurement_count s"
proof -
  let ?p = "complete_warmup (prepared s m0)"
  have e: "add_each ?p (m0 # rest) = Inr s'"
    using assms(1) by (simp only: add_measurements_Cons)
  have "loop_frame ?p s'"
    using e add_each_frame [of ?p "m0 # rest"] by (rule frame_of_returned)
  then have "warmed_up s' = warmed_up ?p" "BUFSIZE s' = BUFSIZE ?p"
    by (simp_all add: loop_frame_def)
  moreover have "warmed_up ?p" "BUFSIZE ?p = warmup_measurement_count s"
    using assms(2,3) by (simp_all add: complete_warmup_def is_warmed_up_def prepared_fields)
  ultimately show ?thesis by simp
qed

lemma add_measurements_counts:
  assumes "add_measurements s (m0 # rest) = Inr s'"
    and "\<not> warmed_up s" and "\<not> warmup_resize_ringbufs s"
    and "warmup_first_datetime s' = Some t0"
  shows "\<not> warmed_up s' \<and> BUFSIZE s' = BUFSIZE s \<and>
         warmup_measurement_count s' = warmup_measurement_count s +
           int (length (filter (\<lambda>m. hz_low m = warmup_bucket_frequency s') (m0 # rest))) \<and>
         (warmup_resize_ringbufs s' \<longleftrightarrow>
            (\<exists>m\<in>set (m0 # rest). hz_low m = warmup_bucket_frequency s' \<and> datetime m - t0 > 1))"
proof -
  let ?p = "prepared s m0"
  have cw: "complete_warmup ?p = ?p"
    using assms(2,3) by (simp add: complete_warmup_def is_warmed_up_def prepared_fields)
  have e: "add_each ?p (m0 # rest) = Inr s'"
    using assms(1) cw by (simp only: add_measurements_Cons)
  have f: "loop_frame ?p s'"
    using e add_each_frame [of ?p "m0 # rest"] by (rule frame_of_returned)
  then have same: "warmed_up s' = warmed_up ?p" "BUFSIZE s' = BUFSIZE ?p"
    "warmup_bucket_frequency s' = warmup_bucket_frequency ?p"
    "warmup_first_datetime s' = warmup_first_datetime ?p"
    by (simp_all add: loop_frame_def)
  have t0: "warmup_first_datetime ?p = Some t0" using same(4) assms(4) by simp
  have cold: "\<not> warmed_up ?p" using assms(2) by (simp add: prepared_fields)
  from add_each_counts [OF e t0 cold] same(1,2,3) assms(2,3)
  show ?thesis by (simp add: prepared_fields)
qed

lemma store_ok_init: "store_ok (signal_store_init c)"
  by (simp add: store_ok_def buffers_ok_def signal_store_init_def)

lemma add_measurements_reference_kept:
  assumes "warmup_bucket_frequency s \<noteq> 0"
  shows "warmup_bucket_frequency (store_after (add_measurements s ms)) = warmup_bucket_frequency s \<and>
         warmup_first_datetime (store_after (add_measurements s ms)) = warmup_first_datetime s"
proof (cases "note_bucket_width s ms")
  case (Inl a)
  then have "a = (IndexError, s)"
    by (auto simp: note_bucket_width_def split: if_splits list.splits)
  with Inl show ?thesis by (simp add: add_measurements_def store_after_def)
next
  case (Inr s1)
  then have s1: "warmup_bucket_frequency s1 = warmup_bucket_frequency s"
    "warmup_first_datetime s1 = warmup_first_datetime s"
    by (auto simp: note_bucket_width_def split: if_splits list.splits)
  then have "pick_warmup_bucket s1 ms = Inr s1"
    using assms by (simp add: pick_warmup_bucket_def)
  then have "add_measurements s ms = add_each (complete_warmup s1) ms"
    using Inr by (simp add: add_measurements_def)
  moreover have "loop_frame (complete_warmup s1) (store_after (add_each (complete_warmup s1) ms))"
    by (rule add_each_frame)
  ultimately show ?thesis using s1 by (simp add: loop_frame_def complete_warmup_fields)
qed

lemma add_batches_reference_kept:
  assumes "warmup_bucket_frequency s \<noteq> 0"
  shows "warmup_bucket_frequency (store_after (add_batches s bs)) = warmup_bucket_frequency s \<and>
         warmup_first_datetime (store_after (add_batches s bs)) = warmup_first_datetime s"
  using assms
proof (induction bs arbitrary: s)
  case Nil
  show ?case by (simp add: store_after_def)
next
  case (Cons b bs)
  note kept = add_measurements_reference_kept [OF Cons.prems, of b]
  show ?case
  proof (cases "add_measurements s b")
    case (Inl a)
    then show ?thesis using kept by simp
  next
    case (Inr s1)
    then have s1: "warmup_bucket_frequency s1 = warmup_bucket_frequency s"
      "warmup_first_datetime s1 = warmup_first_datetime s"
      using kept by (simp_all add: store_after_def)
    then have "warmup_bucket_frequency s1 \<noteq> 0" using Cons.prems by simp
    from Cons.IH [OF this] s1 Inr show ?thesis by simp
  qed
qed

lemma add_batches_key_zero:
  assumes "store_ok s" and "warmup_bucket_frequency s = 0"
    and "list_all starts_with_key_zero bs"
  shows "\<exists>s'. add_batches s bs = Inr s' \<and> store_ok s' \<and> warmup_bucket_frequency s' = 0"
  using assms
proof (induction bs arbitrary: s)
  case Nil
  then show ?case by simp
next
  case (Cons b bs)
  from Cons.prems(3) obtain m0 rest where b: "b = m0 # rest" "hz_low m0 = 0"
    by (cases b) (auto simp: starts_with_key_zero_def)
  from add_measurements_returns [OF Cons.prems(1), of m0 rest]
  obtain s1 where s1: "add_measurements s (m0 # rest) = Inr s1" "store_ok s1" by auto
  have "warmup_bucket_frequency s1 = 0"
    using add_measurements_reference [OF s1(1)] Cons.prems(2) b(2) by simp
  moreover have "list_all starts_with_key_zero bs" using Cons.prems(3) by simp
  ultimately obtain s' where "add_batches s1 bs = Inr s'" "store_ok s'"
    "warmup_bucket_frequency s' = 0"
    using Cons.IH [OF s1(2)] by auto
  then show ?case using s1(1) b(1) by simp
qed


section \<open>The warmup bucket with key 0\<close>

text \<open>
  Claim C10, amended. On a fresh store, after any number of batches that each start with a
  measurement of bucket key 0, the next non-empty batch returns and makes its first
  measurement's key the warmup bucket and its timestamp the first timestamp: as long as
  the batches start with key 0, both are assigned anew by every call. If the key of that
  first measurement is not 0, the warmup bucket and the first timestamp stay as they are
  through every later sequence of calls.
\<close>

theorem reference_reassigned_while_zero:
  assumes "list_all starts_with_key_zero bs"
  shows "\<exists>s'. add_batches (signal_store_init c) (bs @ [m # ms]) = Inr s' \<and>
              warmup_bucket_frequency s' = hz_low m \<and>
              warmup_first_datetime s' = Some (datetime m) \<and>
              (hz_low m \<noteq> 0 \<longrightarrow>
                 (\<forall>bs'. warmup_bucket_frequency (store_after (add_batches s' bs')) = hz_low m \<and>
                        warmup_first_datetime (store_after (add_batches s' bs'))
                          = Some (datetime m)))"
proof -
  have "warmup_bucket_frequency (signal_store_init c) = 0"
    by (simp add: signal_store_init_def)
  from add_batches_key_zero [OF store_ok_init this assms]
  obtain s where s: "add_batches (signal_store_init c) bs = Inr s" "store_ok s"
    "warmup_bucket_frequency s = 0" by auto
  from add_measurements_returns [OF s(2), of m ms]
  obtain s' where s': "add_measurements s (m # ms) = Inr s'" by auto
  have ref: "warmup_bucket_frequency s' = hz_low m"
    "warmup_first_datetime s' = Some (datetime m)"
    using add_measurements_reference [OF s'] s(3) by simp_all
  have "add_batches (signal_store_init c) (bs @ [m # ms]) = Inr s'"
    using s(1) s' by (simp add: add_batches_append)
  moreover have "warmup_bucket_frequency (store_after (add_batches s' bs')) = hz_low m \<and>
      warmup_first_datetime (store_after (add_batches s' bs')) = Some (datetime m)"
    if "hz_low m \<noteq> 0" for bs'
    using add_batches_reference_kept [of s' bs'] ref that by simp
  ultimately show ?thesis using ref by simp
qed

theorem reference_reassigned_while_zero_witness:
  "list_all starts_with_key_zero [[Measurement 0 0 1000000 (-70)]] \<and>
   hz_low (Measurement 1 5000000 6000000 (-70)) \<noteq> 0 \<and>
   (\<exists>s'. add_batches (signal_store_init False)
           ([[Measurement 0 0 1000000 (-70)]] @ [Measurement 1 5000000 6000000 (-70) # []])
         = Inr s' \<and>
         warmup_bucket_frequency s' = hz_low (Measurement 1 5000000 6000000 (-70)) \<and>
         warmup_first_datetime s' = Some (datetime (Measurement 1 5000000 6000000 (-70))) \<and>
         (\<forall>bs'. warmup_bucket_frequency (store_after (add_batches s' bs'))
                  = hz_low (Measurement 1 5000000 6000000 (-70)) \<and>
                warmup_first_datetime (store_after (add_batches s' bs'))
                  = Some (datetime (Measurement 1 5000000 6000000 (-70)))))"
proof -
  have h: "list_all starts_with_key_zero [[Measurement 0 0 1000000 (-70)]]"
    by (simp add: starts_with_key_zero_def Measurement_def)
  have n: "hz_low (Measurement 1 5000000 6000000 (-70)) \<noteq> 0"
    by (simp add: Measurement_def)
  from reference_reassigned_while_zero
         [OF h, of False "Measurement 1 5000000 6000000 (-70)" "[]"] h n
  show ?thesis by blast
qed

text \<open>
  The first measurement ever added has key 0, the second sweep starts at 5 MHz, the third
  at 10 MHz: after the third call the warmup bucket is still 5 MHz and the first timestamp
  is still that of the second sweep.
\<close>

theorem reference_fixed_after_nonzero_key:
  "map (\<lambda>b. map (\<lambda>m. (hz_low m, datetime m)) (take 1 b)) zero_start_sweeps
     = [[(0, 0)], [(5000000, 1)], [(10000000, 2)]] \<and>
   warmup_bucket_frequency (store_at (signal_store_init False) zero_start_sweeps 1) = 0 \<and>
   warmup_bucket_frequency (store_at (signal_store_init False) zero_start_sweeps 2) = 5000000 \<and>
   warmup_bucket_frequency (store_at (signal_store_init False) zero_start_sweeps 3) = 5000000 \<and>
   warmup_first_datetime (store_at (signal_store_init False) zero_start_sweeps 3) = Some 1"
  by code_simp

section \<open>The capacity after warmup\<close>

lemma counted_until_late_append:
  "\<forall>m\<in>set xs. \<not> (hz_low m = k \<and> datetime m - t0 > 1) \<Longrightarrow>
   counted_until_late k t0 (xs @ ys)
     = length (filter (\<lambda>m. hz_low m = k) xs) + counted_until_late k t0 ys"
  by (induction xs) auto

lemma counted_and_after:
  "\<exists>m\<in>set ys. hz_low m = k \<and> datetime m - t0 > 1 \<Longrightarrow>
   counted_until_late k t0 ys + refs_after_late k t0 ys
     = length (filter (\<lambda>m. hz_low m = k) ys)"
  by (induction ys) auto

lemma refs_after_late_distinct:
  "distinct (map hz_low b) \<Longrightarrow> refs_after_late k t0 b = 0"
proof (induction b)
  case Nil
  show ?case by simp
next
  case (Cons m ms)
  then have "hz_low m \<notin> hz_low ` set ms" by simp
  then have "\<forall>x\<in>set ms. hz_low x \<noteq> hz_low m" by (metis imageI)
  then have "hz_low m = k \<Longrightarrow> filter (\<lambda>m. hz_low m = k) ms = []"
    by (simp add: filter_empty_conv)
  with Cons show ?case by simp
qed

lemma refs_split:
  assumes "bs \<noteq> []"
    and "\<forall>m\<in>set (concat (butlast bs)). \<not> (hz_low m = k \<and> datetime m - t0 > 1)"
    and "\<exists>m\<in>set (last bs). hz_low m = k \<and> datetime m - t0 > 1"
  shows "length (filter (\<lambda>m. hz_low m = k) (concat bs))
           = counted_until_late k t0 (concat bs) + refs_after_late k t0 (last bs)"
proof -
  have c: "concat bs = concat (butlast bs) @ last bs"
    using assms(1) by (metis append_butlast_last_id concat_append concat.simps append_Nil2)
  have "counted_until_late k t0 (concat bs)
          = length (filter (\<lambda>m. hz_low m = k) (concat (butlast bs)))
            + counted_until_late k t0 (last bs)"
    unfolding c using assms(2) by (rule counted_until_late_append)
  moreover have "length (filter (\<lambda>m. hz_low m = k) (concat bs))
          = length (filter (\<lambda>m. hz_low m = k) (concat (butlast bs)))
            + length (filter (\<lambda>m. hz_low m = k) (last bs))"
    unfolding c by simp
  ultimately show ?thesis using counted_and_after [OF assms(3)] by simp
qed

text \<open>
  \<open>calibrating k t0 bs s\<close>: the store \<open>s\<close>, not yet warmed up after the batches \<open>bs\<close>, has
  counted every measurement of bucket \<open>k\<close> in \<open>bs\<close>; its resize signal is raised exactly if
  the last batch holds such a measurement later than one second past \<open>t0\<close>; no earlier
  batch holds one.
\<close>

definition calibrating :: "int \<Rightarrow> int \<Rightarrow> measurement list list \<Rightarrow> signal_store \<Rightarrow> bool" where
  "calibrating k t0 bs s =
     (warmup_measurement_count s = int (length (filter (\<lambda>m. hz_low m = k) (concat bs))) \<and>
      (warmup_resize_ringbufs s \<longleftrightarrow> (\<exists>m\<in>set (last bs). hz_low m = k \<and> datetime m - t0 > 1)) \<and>
      (\<forall>m\<in>set (concat (butlast bs)). \<not> (hz_low m = k \<and> datetime m - t0 > 1)))"

lemma warmed_up_kept:
  assumes "add_measurements s b = Inr s'" and "warmed_up s"
  shows "warmed_up s'"
  using add_measurements_monotone [of s b] assms
  by (simp add: warmup_monotone_def store_after_def)

lemma calibrating_first:
  assumes "add_measurements (signal_store_init c) (m0 # ms0) = Inr s"
  shows "warmup_bucket_frequency s = hz_low m0 \<and>
         warmup_first_datetime s = Some (datetime m0) \<and>
         calibrating (hz_low m0) (datetime m0) [m0 # ms0] s"
proof -
  have init: "warmup_bucket_frequency (signal_store_init c) = 0"
    "\<not> warmed_up (signal_store_init c)" "\<not> warmup_resize_ringbufs (signal_store_init c)"
    "warmup_measurement_count (signal_store_init c) = 0"
    by (simp_all add: signal_store_init_def)
  have ref: "warmup_bucket_frequency s = hz_low m0"
    "warmup_first_datetime s = Some (datetime m0)"
    using add_measurements_reference [OF assms] init(1) by simp_all
  from add_measurements_counts [OF assms init(2,3) ref(2)] ref(1) init(4)
  have "calibrating (hz_low m0) (datetime m0) [m0 # ms0] s"
    by (simp add: calibrating_def)
  with ref show ?thesis by simp
qed

lemma calibrating_next:
  assumes "add_measurements s (m # ms) = Inr s'"
    and "warmup_bucket_frequency s = k" and "k \<noteq> 0"
    and "warmup_first_datetime s = Some t0"
    and "bs \<noteq> []"
    and "\<not> warmed_up s \<longrightarrow> calibrating k t0 bs s"
    and "\<not> warmed_up s'"
  shows "calibrating k t0 (bs @ [m # ms]) s'"
proof -
  have cold: "\<not> warmed_up s"
    using warmed_up_kept [OF assms(1)] assms(7) by blast
  then have cal: "calibrating k t0 bs s" using assms(6) by simp
  have noflag: "\<not> warmup_resize_ringbufs s"
    using add_measurements_resize [OF assms(1) cold] assms(7) by blast
  have ref: "warmup_bucket_frequency s' = k" "warmup_first_datetime s' = Some t0"
    using add_measurements_reference [OF assms(1)] assms(2,3,4) by simp_all
  note counts = add_measurements_counts [OF assms(1) cold noflag ref(2)]
  have nolate: "\<forall>m\<in>set (concat bs). \<not> (hz_low m = k \<and> datetime m - t0 > 1)"
  proof -
    have "concat bs = concat (butlast bs) @ last bs"
      using assms(5) by (metis append_butlast_last_id concat_append concat.simps append_Nil2)
    then show ?thesis using cal noflag by (auto simp: calibrating_def)
  qed
  have "warmup_measurement_count s' =
          int (length (filter (\<lambda>m. hz_low m = k) (concat (bs @ [m # ms]))))"
    using counts cal ref(1) by (simp add: calibrating_def)
  moreover have "warmup_resize_ringbufs s' \<longleftrightarrow>
          (\<exists>x\<in>set (last (bs @ [m # ms])). hz_low x = k \<and> datetime x - t0 > 1)"
    using counts ref(1) by simp
  moreover have "\<forall>x\<in>set (concat (butlast (bs @ [m # ms]))).
          \<not> (hz_low x = k \<and> datetime x - t0 > 1)"
    using nolate by (simp add: butlast_append)
  ultimately show ?thesis by (simp add: calibrating_def)
qed

lemma calibrating_trace:
  assumes "hz_low m0 \<noteq> 0" and "[] \<notin> set rest"
  shows "\<exists>s. add_batches (signal_store_init c) ((m0 # ms0) # rest) = Inr s \<and> store_ok s \<and>
             warmup_bucket_frequency s = hz_low m0 \<and>
             warmup_first_datetime s = Some (datetime m0) \<and>
             (\<not> warmed_up s \<longrightarrow>
                calibrating (hz_low m0) (datetime m0) ((m0 # ms0) # rest) s)"
  using assms(2)
proof (induction rest rule: rev_induct)
  case Nil
  from add_measurements_returns [OF store_ok_init, of c m0 ms0]
  obtain s where s: "add_measurements (signal_store_init c) (m0 # ms0) = Inr s" "store_ok s"
    by auto
  from calibrating_first [OF s(1)] s show ?case by simp
next
  case (snoc b rest)
  then have "[] \<notin> set rest" by simp
  from snoc.IH [OF this]
  obtain s where s: "add_batches (signal_store_init c) ((m0 # ms0) # rest) = Inr s"
    "store_ok s" "warmup_bucket_frequency s = hz_low m0"
    "warmup_first_datetime s = Some (datetime m0)"
    "\<not> warmed_up s \<longrightarrow> calibrating (hz_low m0) (datetime m0) ((m0 # ms0) # rest) s"
    by auto
  from snoc.prems obtain m ms where b: "b = m # ms" by (cases b) auto
  from add_measurements_returns [OF s(2), of m ms]
  obtain s' where s': "add_measurements s (m # ms) = Inr s'" "store_ok s'" by auto
  have ref: "warmup_bucket_frequency s' = hz_low m0"
    "warmup_first_datetime s' = Some (datetime m0)"
    using add_measurements_reference [OF s'(1)] s(3,4) assms(1) by simp_all
  have run: "add_batches (signal_store_init c) (((m0 # ms0) # rest) @ [b]) = Inr s'"
    using s(1) s'(1) b by (simp only: add_batches_append) simp
  have "calibrating (hz_low m0) (datetime m0) (((m0 # ms0) # rest) @ [m # ms]) s'"
    if "\<not> warmed_up s'"
    using s'(1) s(3) assms(1) s(4) _ s(5) that by (rule calibrating_next) simp
  with run s'(2) ref b show ?case by simp
qed

text \<open>
  Claim C4, amended. Start with a fresh store and non-empty batches, the first measurement
  of the first batch having a bucket key other than 0: this key is the reference bucket
  and its timestamp is \<open>epoch0\<close>. Every call returns. If the store is not warmed up after
  these batches and the next call makes it warmed up, then \<open>_BUFSIZE\<close> is the number of
  reference measurements counted until the first one later than one second past
  \<open>epoch0\<close>, plus the number of reference measurements that follow that one in its batch:
  the counter runs to the end of the batch that raises the signal. When that batch holds
  every bucket once, nothing follows and \<open>_BUFSIZE\<close> is the former number.
\<close>

theorem warmup_capacity:
  assumes "hz_low m0 \<noteq> 0" and "[] \<notin> set rest"
  shows "\<exists>s s'. add_batches (signal_store_init c) ((m0 # ms0) # rest) = Inr s \<and>
                add_measurements s (m # ms) = Inr s' \<and>
                (\<not> is_warmed_up s \<and> is_warmed_up s' \<longrightarrow>
                   BUFSIZE s' =
                     int (counted_until_late (hz_low m0) (datetime m0)
                            (concat ((m0 # ms0) # rest))) +
                     int (refs_after_late (hz_low m0) (datetime m0)
                            (last ((m0 # ms0) # rest))) \<and>
                   (distinct (map hz_low (last ((m0 # ms0) # rest))) \<longrightarrow>
                      BUFSIZE s' =
                        int (counted_until_late (hz_low m0) (datetime m0)
                               (concat ((m0 # ms0) # rest)))))"
proof -
  let ?k = "hz_low m0" and ?t0 = "datetime m0" and ?bs = "(m0 # ms0) # rest"
  from calibrating_trace [OF assms, of c ms0]
  obtain s where s: "add_batches (signal_store_init c) ?bs = Inr s" "store_ok s"
    "warmup_bucket_frequency s = ?k" "warmup_first_datetime s = Some ?t0"
    "\<not> warmed_up s \<longrightarrow> calibrating ?k ?t0 ?bs s"
    by auto
  from add_measurements_returns [OF s(2), of m ms]
  obtain s' where s': "add_measurements s (m # ms) = Inr s'" by auto
  have ref: "warmup_first_datetime s' = Some ?t0"
    using add_measurements_reference [OF s'] s(3,4) assms(1) by simp
  have cap: "BUFSIZE s' = int (counted_until_late ?k ?t0 (concat ?bs)) +
                          int (refs_after_late ?k ?t0 (last ?bs))"
    if cold: "\<not> warmed_up s" and warm: "warmed_up s'"
  proof -
    have flag: "warmup_resize_ringbufs s"
      using add_measurements_counts [OF s' cold _ ref] warm by blast
    have cal: "calibrating ?k ?t0 ?bs s" using s(5) cold by simp
    have "BUFSIZE s' = warmup_measurement_count s"
      using add_measurements_resize [OF s' cold flag] by simp
    also have "\<dots> = int (length (filter (\<lambda>m. hz_low m = ?k) (concat ?bs)))"
      using cal by (simp add: calibrating_def)
    also have "length (filter (\<lambda>m. hz_low m = ?k) (concat ?bs))
        = counted_until_late ?k ?t0 (concat ?bs) + refs_after_late ?k ?t0 (last ?bs)"
    proof (rule refs_split)
      show "?bs \<noteq> []" by simp
      show "\<forall>m\<in>set (concat (butlast ?bs)). \<not> (hz_low m = ?k \<and> datetime m - ?t0 > 1)"
        using cal by (simp add: calibrating_def)
      show "\<exists>m\<in>set (last ?bs). hz_low m = ?k \<and> datetime m - ?t0 > 1"
        using cal flag by (simp add: calibrating_def)
    qed
    finally show ?thesis by simp
  qed
  have "\<not> is_warmed_up s \<and> is_warmed_up s' \<longrightarrow>
          BUFSIZE s' = int (counted_until_late ?k ?t0 (concat ?bs)) +
                       int (refs_after_late ?k ?t0 (last ?bs)) \<and>
          (distinct (map hz_low (last ?bs)) \<longrightarrow>
             BUFSIZE s' = int (counted_until_late ?k ?t0 (concat ?bs)))"
    using cap refs_after_late_distinct [of "last ?bs" ?k ?t0]
    by (simp add: is_warmed_up_def)
  with s(1) s' show ?thesis by blast
qed


theorem warmup_capacity_witness:
  "hz_low (Measurement 0 2400000000 2401000000 (-70)) \<noteq> 0 \<and>
   [] \<notin> set [[Measurement 2 2400000000 2401000000 (-70),
                Measurement 2 2401000000 2402000000 (-70)]] \<and>
   (\<exists>s s'. add_batches (signal_store_init False)
              ((Measurement 0 2400000000 2401000000 (-70)
                  # [Measurement 0 2401000000 2402000000 (-70)])
               # [[Measurement 2 2400000000 2401000000 (-70),
                   Measurement 2 2401000000 2402000000 (-70)]]) = Inr s \<and>
            add_measurements s
              (Measurement 3 2400000000 2401000000 (-70)
                 # [Measurement 3 2401000000 2402000000 (-70)]) = Inr s' \<and>
            \<not> is_warmed_up s \<and> is_warmed_up s' \<and> BUFSIZE s' = 2)"
proof -
  let ?first = "Measurement 0 2400000000 2401000000 (-70)"
  let ?others = "[Measurement 0 2401000000 2402000000 (-70)]"
  let ?rest = "[[Measurement 2 2400000000 2401000000 (-70),
                 Measurement 2 2401000000 2402000000 (-70)]]"
  let ?next = "Measurement 3 2400000000 2401000000 (-70)"
  let ?more = "[Measurement 3 2401000000 2402000000 (-70)]"
  have h1: "hz_low ?first \<noteq> 0" by (simp add: Measurement_def)
  have h2: "[] \<notin> set ?rest" by simp
  from warmup_capacity [OF h1 h2, of False ?others ?next ?more]
  obtain s s' where a: "add_batches (signal_store_init False) ((?first # ?others) # ?rest) = Inr s"
    and b: "add_measurements s (?next # ?more) = Inr s'"
    and imp: "\<not> is_warmed_up s \<and> is_warmed_up s' \<longrightarrow>
          BUFSIZE s' = int (counted_until_late (hz_low ?first) (datetime ?first)
                              (concat ((?first # ?others) # ?rest))) +
                       int (refs_after_late (hz_low ?first) (datetime ?first)
                              (last ((?first # ?others) # ?rest))) \<and>
          (distinct (map hz_low (last ((?first # ?others) # ?rest))) \<longrightarrow>
             BUFSIZE s' = int (counted_until_late (hz_low ?first) (datetime ?first)
                                 (concat ((?first # ?others) # ?rest))))"
    by blast
  have s_eq: "s = store_after (add_batches (signal_store_init False) ((?first # ?others) # ?rest))"
    by (simp only: a store_after_def sum.case)
  have s'_eq: "s' = store_after (add_measurements
      (store_after (add_batches (signal_store_init False) ((?first # ?others) # ?rest))) (?next # ?more))"
    unfolding s_eq [symmetric] by (simp only: b store_after_def sum.case)
  have w1: "\<not> is_warmed_up s" unfolding s_eq by code_simp
  have w2: "is_warmed_up s'" unfolding s'_eq by code_simp
  have "int (counted_until_late (hz_low ?first) (datetime ?first) (concat ((?first # ?others) # ?rest))) +
        int (refs_after_late (hz_low ?first) (datetime ?first) (last ((?first # ?others) # ?rest))) = 2"
    by code_simp
  with imp w1 w2 have "BUFSIZE s' = 2" by simp
  with h1 h2 a b w1 w2 show ?thesis by blast
qed

text \<open>
  In \<open>duplicate_key_sweeps\<close> the second batch holds the reference bucket twice, both later
  than one second past the first timestamp: the capacity after warmup is 3, the count up
  to the first of the two is 2. In \<open>zero_then_late_sweeps\<close> the first key is 0, so the
  measurement counted by the first call is not one of the final reference bucket: the
  capacity is 3, the count is 2 for the final reference bucket and 1 for the first.
\<close>

theorem capacity_counts_past_first_late:
  "\<not> is_warmed_up (store_at (signal_store_init False) duplicate_key_sweeps 2) \<and>
   is_warmed_up (store_at (signal_store_init False) duplicate_key_sweeps 3) \<and>
   BUFSIZE (store_at (signal_store_init False) duplicate_key_sweeps 3) = 3 \<and>
   warmup_bucket_frequency (store_at (signal_store_init False) duplicate_key_sweeps 3)
     = 2400000000 \<and>
   warmup_first_datetime (store_at (signal_store_init False) duplicate_key_sweeps 3) = Some 0 \<and>
   counted_until_late 2400000000 0 (concat duplicate_key_sweeps) = 2 \<and>
   \<not> is_warmed_up (store_at (signal_store_init False) zero_then_late_sweeps 3) \<and>
   is_warmed_up (store_at (signal_store_init False) zero_then_late_sweeps 4) \<and>
   BUFSIZE (store_at (signal_store_init False) zero_then_late_sweeps 4) = 3 \<and>
   warmup_bucket_frequency (store_at (signal_store_init False) zero_then_late_sweeps 4)
     = 5000000 \<and>
   warmup_first_datetime (store_at (signal_store_init False) zero_then_late_sweeps 4) = Some 1 \<and>
   counted_until_late 5000000 1 (concat zero_then_late_sweeps) = 2 \<and>
   counted_until_late 0 0 (concat zero_then_late_sweeps) = 1"
  by code_simp

end
